theory Spec2Isabelle
  imports Complex_Main
begin

section \<open>Data model of \<^verbatim>\<open>App.vue\<close>\<close>

text \<open>
  The script block of \<^verbatim>\<open>src/frontend/src/App.vue\<close> is embedded as functions on one
  record that holds every reactive reference and module variable of the component,
  the part of the host it talks to (the timer table of \<^verbatim>\<open>setTimeout\<close>, the calls
  still awaiting an answer) and a log of every request it sends out.

  Left out is what no state depends on: the focus calls, the icon and highlight helpers,
  the computed styles, the \<^verbatim>\<open>window-focused\<close> listener and the teardown in
  \<^verbatim>\<open>onUnmounted\<close>.

  JavaScript numbers that are only stored and passed on (\<^verbatim>\<open>score\<close>, the numeric
  settings) are \<^typ>\<open>real\<close>; \<^verbatim>\<open>selectedIndex\<close> only ever receives integers and is an
  \<^typ>\<open>int\<close>, and so is the counter \<^verbatim>\<open>latestSearchId\<close>, whose increment stops at
  \<open>2 ^ 53\<close>, as \<^verbatim>\<open>++\<close> on a double does. Times are milliseconds in \<^typ>\<open>nat\<close>.
\<close>

record SearchResult =
  id_field :: string
  title :: string
  subtitle :: string
  score :: real
  action_type :: string
  action_data :: string
  file_type :: string

record AppSettings =
  max_results :: real
  enable_autostart :: bool
  theme_bg_image :: string
  theme_bg_opacity :: real
  theme_bg_blur :: real

text \<open>
  The object \<^verbatim>\<open>get_settings\<close> answers with is spread over the current settings
  (\<^verbatim>\<open>{ ...settings.value, ...saved }\<close>), so only the fields it carries count: each
  field is optional.
\<close>

record SavedSettings =
  saved_max_results :: "real option"
  saved_enable_autostart :: "bool option"
  saved_theme_bg_image :: "string option"
  saved_theme_bg_opacity :: "real option"
  saved_theme_bg_blur :: "real option"

text \<open>The two closures handed to \<^verbatim>\<open>setTimeout\<close>: the one of \<^verbatim>\<open>handleInput\<close> and the
  one of \<^verbatim>\<open>handleListScroll\<close>.\<close>

datatype callback = SearchCb | ScrollCb

record timer =
  tid :: nat
  deadline :: nat
  cb :: callback

text \<open>What \<^verbatim>\<open>console.error\<close> is called for.\<close>

datatype logmsg = SearchFailed | LoadSettingsFailed | SaveSettingsFailed | ExecuteFailed

record app =
  query :: string
  results :: "SearchResult list"
  selectedIndex :: int
  isLoading :: bool
  searchTimeout :: "nat option"
  scrollTimeout :: "nat option"
  latestSearchId :: int
  isKeyboardScroll :: bool
  isMouseScrolling :: bool
  isKeyboardSelection :: bool
  showSettings :: bool
  settings :: AppSettings
  \<comment> \<open>the host: clock in milliseconds, pending timers, next timer handle\<close>
  now :: nat
  timers :: "timer list"
  nextTimerId :: nat
  \<comment> \<open>calls awaiting their answer: the tokens of suspended \<^verbatim>\<open>performSearch\<close> calls, and
      how many \<^verbatim>\<open>get_settings\<close>, \<^verbatim>\<open>save_settings\<close> and \<^verbatim>\<open>execute_item\<close> calls\<close>
  inflight :: "int list"
  pendingLoads :: nat
  pendingSaves :: nat
  pendingExecs :: nat
  \<comment> \<open>what was sent out\<close>
  searchCalls :: "(int \<times> string) list"
  saveCalls :: "AppSettings list"
  execCalls :: "(string \<times> string) list"
  hideCalls :: nat
  scrollCalls :: "int list"
  errorLog :: "logmsg list"

definition FIXED_BG_PATH :: string where
  "FIXED_BG_PATH = ''/bg.png''"

text \<open>The state right after \<^verbatim>\<open>setup\<close> and \<^verbatim>\<open>onMounted\<close>: the first
  \<^verbatim>\<open>loadSettings\<close> is awaiting its answer. Timer handles of the host start at 1.\<close>

definition init :: app where
  "init = \<lparr> query = [], results = [], selectedIndex = 0, isLoading = False,
     searchTimeout = None, scrollTimeout = None, latestSearchId = 0,
     isKeyboardScroll = False, isMouseScrolling = False, isKeyboardSelection = False,
     showSettings = False,
     settings = \<lparr> max_results = 100, enable_autostart = False,
       theme_bg_image = FIXED_BG_PATH, theme_bg_opacity = 0.05, theme_bg_blur = 0 \<rparr>,
     now = 0, timers = [], nextTimerId = 1,
     inflight = [], pendingLoads = 1, pendingSaves = 0, pendingExecs = 0,
     searchCalls = [], saveCalls = [], execCalls = [], hideCalls = 0,
     scrollCalls = [], errorLog = [] \<rparr>"

section \<open>JavaScript arithmetic\<close>

text \<open>\<^verbatim>\<open>++latestSearchId\<close> on a double: exact below \<open>2 ^ 53\<close>, and \<open>2 ^ 53 + 1\<close> rounds
  back to \<open>2 ^ 53\<close>.\<close>

definition js_incr :: "int \<Rightarrow> int" where
  "js_incr n = (if n < 2 ^ 53 then n + 1 else n)"

text \<open>The remainder operator \<^verbatim>\<open>%\<close> truncates: the result has the sign of the dividend.\<close>

definition js_rem :: "int \<Rightarrow> int \<Rightarrow> int" where
  "js_rem a n = sgn a * (\<bar>a\<bar> mod \<bar>n\<bar>)"

text \<open>Truthiness of a timer handle (\<^verbatim>\<open>if (searchTimeout)\<close>): \<^verbatim>\<open>null\<close> and \<open>0\<close> are falsy.\<close>

definition truthy :: "nat option \<Rightarrow> bool" where
  "truthy h = (case h of None \<Rightarrow> False | Some n \<Rightarrow> n \<noteq> 0)"

section \<open>The host's timers\<close>

definition setTimeout :: "callback \<Rightarrow> nat \<Rightarrow> app \<Rightarrow> nat \<times> app" where
  "setTimeout c ms s =
     (nextTimerId s,
      s\<lparr> timers := timers s @ [\<lparr> tid = nextTimerId s, deadline = now s + ms, cb = c \<rparr>],
         nextTimerId := Suc (nextTimerId s) \<rparr>)"

definition clearTimeout :: "nat option \<Rightarrow> app \<Rightarrow> app" where
  "clearTimeout h s = s\<lparr> timers := filter (\<lambda>t. Some (tid t) \<noteq> h) (timers s) \<rparr>"

section \<open>Search\<close>

text \<open>\<^verbatim>\<open>performSearch\<close> up to its \<^verbatim>\<open>await\<close>: the token is taken, the spinner set, the
  request sent. The call then waits in \<open>inflight\<close> under its token.\<close>

definition performSearch :: "string \<Rightarrow> app \<Rightarrow> app" where
  "performSearch q s =
     (let currentSearchId = js_incr (latestSearchId s) in
      s\<lparr> latestSearchId := currentSearchId,
         isLoading := True,
         searchCalls := searchCalls s @ [(currentSearchId, q)],
         inflight := inflight s @ [currentSearchId] \<rparr>)"

text \<open>The \<^verbatim>\<open>finally\<close> block, which runs after the \<^verbatim>\<open>try\<close> body (also after its
  \<^verbatim>\<open>return\<close>) and after the \<^verbatim>\<open>catch\<close> body.\<close>

definition searchFinally :: "int \<Rightarrow> app \<Rightarrow> app" where
  "searchFinally currentSearchId s =
     (if currentSearchId = latestSearchId s then s\<lparr> isLoading := False \<rparr> else s)"

text \<open>\<^verbatim>\<open>performSearch\<close> from the point where \<^verbatim>\<open>invoke\<close> resolves with \<open>res\<close>.\<close>

definition searchResolved :: "int \<Rightarrow> SearchResult list \<Rightarrow> app \<Rightarrow> app" where
  "searchResolved currentSearchId res s =
     searchFinally currentSearchId
       (if currentSearchId \<noteq> latestSearchId s then s
        else s\<lparr> results := res, selectedIndex := 0 \<rparr>)"

text \<open>\<^verbatim>\<open>performSearch\<close> from the point where \<^verbatim>\<open>invoke\<close> rejects.\<close>

definition searchRejected :: "int \<Rightarrow> app \<Rightarrow> app" where
  "searchRejected currentSearchId s =
     searchFinally currentSearchId
       (if currentSearchId = latestSearchId s
        then s\<lparr> errorLog := errorLog s @ [SearchFailed], results := [] \<rparr>
        else s)"

section \<open>Settings\<close>

text \<open>\<^verbatim>\<open>loadSettings\<close> up to its \<^verbatim>\<open>await\<close>, and from there when \<^verbatim>\<open>get_settings\<close>
  resolves or rejects.\<close>

definition loadSettings :: "app \<Rightarrow> app" where
  "loadSettings s = s\<lparr> pendingLoads := Suc (pendingLoads s) \<rparr>"

definition spread :: "AppSettings \<Rightarrow> SavedSettings \<Rightarrow> AppSettings" where
  "spread cur saved =
     \<lparr> max_results = (case saved_max_results saved of None \<Rightarrow> max_results cur | Some v \<Rightarrow> v),
       enable_autostart =
         (case saved_enable_autostart saved of None \<Rightarrow> enable_autostart cur | Some v \<Rightarrow> v),
       theme_bg_image =
         (case saved_theme_bg_image saved of None \<Rightarrow> theme_bg_image cur | Some v \<Rightarrow> v),
       theme_bg_opacity =
         (case saved_theme_bg_opacity saved of None \<Rightarrow> theme_bg_opacity cur | Some v \<Rightarrow> v),
       theme_bg_blur =
         (case saved_theme_bg_blur saved of None \<Rightarrow> theme_bg_blur cur | Some v \<Rightarrow> v) \<rparr>"

definition loadResolved :: "SavedSettings \<Rightarrow> app \<Rightarrow> app" where
  "loadResolved saved s =
     (let s1 = s\<lparr> settings := spread (settings s) saved \<rparr> in
      s1\<lparr> settings := (settings s1)\<lparr> theme_bg_image := FIXED_BG_PATH \<rparr> \<rparr>)"

definition loadRejected :: "app \<Rightarrow> app" where
  "loadRejected s = s\<lparr> errorLog := errorLog s @ [LoadSettingsFailed] \<rparr>"

text \<open>\<^verbatim>\<open>saveSettings\<close> up to its \<^verbatim>\<open>await invoke\<close>. \<^verbatim>\<open>Number\<close> of a number is that
  number. The record handed to \<^verbatim>\<open>save_settings\<close> is logged in \<open>saveCalls\<close>.\<close>

definition saveSettings :: "app \<Rightarrow> app" where
  "saveSettings s =
     (let s1 = s\<lparr> settings := (settings s)\<lparr> max_results := max_results (settings s) \<rparr> \<rparr>;
          s2 = s1\<lparr> settings := (settings s1)\<lparr> theme_bg_image := FIXED_BG_PATH \<rparr> \<rparr>
      in s2\<lparr> saveCalls := saveCalls s2 @ [settings s2],
              pendingSaves := Suc (pendingSaves s2) \<rparr>)"

text \<open>After \<^verbatim>\<open>save_settings\<close> resolved: the panel closes and the current query is
  searched again. \<^verbatim>\<open>await nextTick()\<close> resumes within the same task.\<close>

definition saveResolved :: "app \<Rightarrow> app" where
  "saveResolved s = (let s1 = s\<lparr> showSettings := False \<rparr> in performSearch (query s1) s1)"

definition saveRejected :: "app \<Rightarrow> app" where
  "saveRejected s = s\<lparr> errorLog := errorLog s @ [SaveSettingsFailed] \<rparr>"

definition toggleSettings :: "app \<Rightarrow> app" where
  "toggleSettings s =
     (if \<not> showSettings s then (loadSettings s)\<lparr> showSettings := True \<rparr>
      else s\<lparr> showSettings := False \<rparr>)"

section \<open>Selection, scrolling and the keyboard\<close>

text \<open>The number of children of the result list after rendering: one row for each result,
  and the empty-state block when it is shown (\<^verbatim>\<open>query && results.length === 0 && !isLoading\<close>).\<close>

definition childrenCount :: "app \<Rightarrow> nat" where
  "childrenCount s =
     length (results s) + (if query s \<noteq> [] \<and> results s = [] \<and> \<not> isLoading s then 1 else 0)"

text \<open>The callback of \<^verbatim>\<open>watch(selectedIndex, ...)\<close>. The list element
  \<^verbatim>\<open>resultListRef\<close> exists while the main view is rendered, that is while the settings
  panel is closed. A call of \<^verbatim>\<open>scrollIntoView\<close> is logged with the row it is for.\<close>

definition watchSelectedIndex :: "int \<Rightarrow> app \<Rightarrow> app" where
  "watchSelectedIndex newIndex s =
     (if \<not> isKeyboardScroll s \<or> showSettings s then s
      else if newIndex \<ge> int (childrenCount s) then s
      else (let s1 = (if 0 \<le> newIndex then s\<lparr> scrollCalls := scrollCalls s @ [newIndex] \<rparr>
                      else s)
            in s1\<lparr> isKeyboardScroll := False \<rparr>))"

text \<open>One task of the event loop: the handler runs to its end, then the watcher runs
  if \<^verbatim>\<open>selectedIndex\<close> holds another value than before.\<close>

definition task :: "(app \<Rightarrow> app) \<Rightarrow> app \<Rightarrow> app" where
  "task f s =
     (let s' = f s in
      if selectedIndex s' \<noteq> selectedIndex s then watchSelectedIndex (selectedIndex s') s'
      else s')"

definition handleListScroll :: "app \<Rightarrow> app" where
  "handleListScroll s =
     (let s1 = s\<lparr> isMouseScrolling := True \<rparr>;
          s2 = (if truthy (scrollTimeout s1) then clearTimeout (scrollTimeout s1) s1 else s1);
          (h, s3) = setTimeout ScrollCb 150 s2
      in s3\<lparr> scrollTimeout := Some h \<rparr>)"

definition handleMouseMove :: "int \<Rightarrow> int \<Rightarrow> int \<Rightarrow> app \<Rightarrow> app" where
  "handleMouseMove index movementX movementY s =
     (if isMouseScrolling s then s
      else if movementX = 0 \<and> movementY = 0 then s
      else s\<lparr> selectedIndex := index, isKeyboardSelection := False \<rparr>)"

definition hideWindow :: "app \<Rightarrow> app" where
  "hideWindow s = s\<lparr> hideCalls := Suc (hideCalls s) \<rparr>"

definition handleInput :: "app \<Rightarrow> app" where
  "handleInput s =
     (let s1 = (if truthy (searchTimeout s) then clearTimeout (searchTimeout s) s else s);
          s2 = s1\<lparr> isLoading := True \<rparr>;
          (h, s3) = setTimeout SearchCb 100 s2
      in s3\<lparr> searchTimeout := Some h \<rparr>)"

definition handleExecute :: "SearchResult \<Rightarrow> app \<Rightarrow> app" where
  "handleExecute item s =
     s\<lparr> execCalls := execCalls s @ [(id_field item, query s)],
        pendingExecs := Suc (pendingExecs s) \<rparr>"

definition handleKeyDown :: "string \<Rightarrow> app \<Rightarrow> app" where
  "handleKeyDown key s =
     (if key = ''Escape'' then
        (if length (query s) > 0 then performSearch [] (s\<lparr> query := [] \<rparr>)
         else hideWindow s)
      else if length (results s) = 0 then s
      else
        (let s1 = s\<lparr> isKeyboardScroll := True, isKeyboardSelection := True \<rparr> in
         if key = ''ArrowDown'' then
           s1\<lparr> selectedIndex := js_rem (selectedIndex s1 + 1) (int (length (results s1))) \<rparr>
         else if key = ''ArrowUp'' then
           s1\<lparr> selectedIndex :=
                 js_rem (selectedIndex s1 - 1 + int (length (results s1)))
                        (int (length (results s1))) \<rparr>
         else if key = ''Enter'' then
           (if 0 \<le> selectedIndex s1 \<and> selectedIndex s1 < int (length (results s1))
            then handleExecute (results s1 ! nat (selectedIndex s1)) s1
            else s1)
         else s1))"

section \<open>The event loop\<close>

text \<open>What a timer runs when it fires.\<close>

fun runCallback :: "callback \<Rightarrow> app \<Rightarrow> app" where
  "runCallback SearchCb s = performSearch (query s) s"
| "runCallback ScrollCb s = s\<lparr> isMouseScrolling := False \<rparr>"

text \<open>The pending timer to run next: the earliest deadline, and among equal deadlines the
  one set first.\<close>

fun earliest :: "timer list \<Rightarrow> timer option" where
  "earliest [] = None"
| "earliest (x # xs) =
     (case earliest xs of
        None \<Rightarrow> Some x
      | Some y \<Rightarrow> if deadline x \<le> deadline y then Some x else Some y)"

definition nextDue :: "app \<Rightarrow> timer option" where
  "nextDue s = earliest (filter (\<lambda>t. deadline t \<le> now s) (timers s))"

definition fire :: "timer \<Rightarrow> app \<Rightarrow> app" where
  "fire t s = task (runCallback (cb t)) (s\<lparr> timers := remove1 t (timers s) \<rparr>)"

text \<open>All timers that are due fire, one task each. No callback of this program sets a
  timer, so each round leaves one pending timer fewer.\<close>

function fireDue :: "app \<Rightarrow> app" where
  "fireDue s = (case nextDue s of None \<Rightarrow> s | Some t \<Rightarrow> fireDue (fire t s))"
  by pat_completeness auto
termination
proof (relation "measure (\<lambda>s. length (timers s))")
  show "wf (measure (\<lambda>s. length (timers s)))" by simp
next
  fix s t
  assume due: "nextDue s = Some t"
  have mem: "earliest xs = Some u \<Longrightarrow> u \<in> set xs" for xs u
    by (induction xs arbitrary: u) (auto split: option.splits if_splits)
  from due have "t \<in> set (timers s)"
    unfolding nextDue_def by (auto dest: mem)
  moreover have "timers (fire t s) = remove1 t (timers s)"
    by (cases "cb t")
      (simp_all add: fire_def task_def performSearch_def watchSelectedIndex_def Let_def)
  ultimately show "(fire t s, s) \<in> measure (\<lambda>s. length (timers s))"
    using length_pos_if_in_set [of t "timers s"] by (simp add: length_remove1)
qed

declare fireDue.simps [simp del]

text \<open>Time passes: \<open>d\<close> milliseconds later every timer whose deadline has been reached
  has fired. A timer whose deadline is the very instant of an event runs before it.\<close>

definition advance :: "nat \<Rightarrow> app \<Rightarrow> app" where
  "advance d s = fireDue (s\<lparr> now := now s + d \<rparr>)"

text \<open>What reaches the component from outside: the user's input, and the answers of the
  backend to the calls in flight.\<close>

datatype event =
    InputChange string
  | KeyDown string
  | MouseMove int int int
  | ListScroll
  | Click nat
  | ToggleSettings
  | EditMaxResults real
  | EditAutostart bool
  | EditOpacity real
  | EditBlur real
  | SaveClick
  | SearchOk int "SearchResult list"
  | SearchErr int
  | GetSettingsOk SavedSettings
  | GetSettingsErr
  | SaveSettingsOk
  | SaveSettingsErr
  | ExecuteErr

text \<open>An input change is \<^verbatim>\<open>v-model\<close> storing the text, then \<^verbatim>\<open>@input\<close>. An answer is
  taken only for a call that awaits one. A click on a row and the edits of the settings
  form are the bindings of the template. A successful \<^verbatim>\<open>execute_item\<close> changes nothing
  and has no event.\<close>

fun handle :: "event \<Rightarrow> app \<Rightarrow> app" where
  "handle (InputChange q) s = handleInput (s\<lparr> query := q \<rparr>)"
| "handle (KeyDown k) s = handleKeyDown k s"
| "handle (MouseMove i mx my) s = handleMouseMove i mx my s"
| "handle ListScroll s = handleListScroll s"
| "handle (Click i) s = (if i < length (results s) then handleExecute (results s ! i) s else s)"
| "handle ToggleSettings s = toggleSettings s"
| "handle (EditMaxResults v) s = s\<lparr> settings := (settings s)\<lparr> max_results := v \<rparr> \<rparr>"
| "handle (EditAutostart v) s = s\<lparr> settings := (settings s)\<lparr> enable_autostart := v \<rparr> \<rparr>"
| "handle (EditOpacity v) s = s\<lparr> settings := (settings s)\<lparr> theme_bg_opacity := v \<rparr> \<rparr>"
| "handle (EditBlur v) s = s\<lparr> settings := (settings s)\<lparr> theme_bg_blur := v \<rparr> \<rparr>"
| "handle SaveClick s = saveSettings s"
| "handle (SearchOk tok res) s =
     (if tok \<in> set (inflight s)
      then searchResolved tok res (s\<lparr> inflight := remove1 tok (inflight s) \<rparr>) else s)"
| "handle (SearchErr tok) s =
     (if tok \<in> set (inflight s)
      then searchRejected tok (s\<lparr> inflight := remove1 tok (inflight s) \<rparr>) else s)"
| "handle (GetSettingsOk saved) s =
     (if 0 < pendingLoads s
      then loadResolved saved (s\<lparr> pendingLoads := pendingLoads s - 1 \<rparr>) else s)"
| "handle GetSettingsErr s =
     (if 0 < pendingLoads s then loadRejected (s\<lparr> pendingLoads := pendingLoads s - 1 \<rparr>) else s)"
| "handle SaveSettingsOk s =
     (if 0 < pendingSaves s then saveResolved (s\<lparr> pendingSaves := pendingSaves s - 1 \<rparr>) else s)"
| "handle SaveSettingsErr s =
     (if 0 < pendingSaves s then saveRejected (s\<lparr> pendingSaves := pendingSaves s - 1 \<rparr>) else s)"
| "handle ExecuteErr s =
     (if 0 < pendingExecs s
      then s\<lparr> pendingExecs := pendingExecs s - 1, errorLog := errorLog s @ [ExecuteFailed] \<rparr>
      else s)"

text \<open>An event arrives \<open>d\<close> milliseconds after the one before it.\<close>

definition step :: "app \<Rightarrow> nat \<times> event \<Rightarrow> app" where
  "step s de = (case de of (d, e) \<Rightarrow> task (handle e) (advance d s))"

definition run :: "app \<Rightarrow> (nat \<times> event) list \<Rightarrow> app" where
  "run s es = foldl step s es"

section \<open>Observing a run\<close>

text \<open>A list of timed events is run from left to right; \<open>elapsed\<close> is the time it takes.\<close>

definition elapsed :: "(nat \<times> event) list \<Rightarrow> nat" where
  "elapsed es = sum_list (map fst es)"

text \<open>A burst of raw input changes: each pair is the gap since the change before it and the
  text of the input box after it.\<close>

definition inputs :: "(nat \<times> string) list \<Rightarrow> (nat \<times> event) list" where
  "inputs burst = map (\<lambda>(g, q). (g, InputChange q)) burst"

text \<open>The answers that were applied. An answer is accepted when it is for a call in flight
  and carries the token that is current when it arrives; what it puts on screen is the result
  list of a success, and the empty list for a failure.\<close>

fun acceptedAt :: "app \<Rightarrow> event \<Rightarrow> (int \<times> SearchResult list) list" where
  "acceptedAt s (SearchOk tok res) =
     (if tok \<in> set (inflight s) \<and> tok = latestSearchId s then [(tok, res)] else [])"
| "acceptedAt s (SearchErr tok) =
     (if tok \<in> set (inflight s) \<and> tok = latestSearchId s then [(tok, [])] else [])"
| "acceptedAt s e = []"

fun acceptedLog :: "app \<Rightarrow> (nat \<times> event) list \<Rightarrow> (int \<times> SearchResult list) list" where
  "acceptedLog s [] = []"
| "acceptedLog s (de # es) =
     acceptedAt (advance (fst de) s) (snd de) @ acceptedLog (step s de) es"

text \<open>The entry with the highest token.\<close>

fun highest :: "(int \<times> 'a) list \<Rightarrow> (int \<times> 'a) option" where
  "highest [] = None"
| "highest (x # xs) =
     (case highest xs of None \<Rightarrow> Some x | Some y \<Rightarrow> if fst x < fst y then Some y else Some x)"

section \<open>Invariants\<close>

text \<open>The two handle variables and the timer table agree: a handle is a positive number
  the host has given out, the two variables never hold the same handle, every pending timer
  is the one its variable points to, and the scroll flag is up only while its timer is
  pending. This holds initially and after every event.\<close>

fun handle_ok :: "nat \<Rightarrow> nat option \<Rightarrow> bool" where
  "handle_ok n None = True"
| "handle_ok n (Some h) = (0 < h \<and> h < n)"

definition timers_ok :: "app \<Rightarrow> bool" where
  "timers_ok s \<longleftrightarrow>
     0 < nextTimerId s
     \<and> handle_ok (nextTimerId s) (searchTimeout s)
     \<and> handle_ok (nextTimerId s) (scrollTimeout s)
     \<and> (searchTimeout s = None \<or> searchTimeout s \<noteq> scrollTimeout s)
     \<and> (\<forall>t \<in> set (timers s).
           (cb t = SearchCb \<longrightarrow> searchTimeout s = Some (tid t))
           \<and> (cb t = ScrollCb \<longrightarrow> scrollTimeout s = Some (tid t)))
     \<and> (isMouseScrolling s \<longrightarrow> (\<exists>t \<in> set (timers s). cb t = ScrollCb))"

text \<open>The selection is a row of the list whenever the list has rows.\<close>

definition index_ok :: "app \<Rightarrow> bool" where
  "index_ok s \<longleftrightarrow>
     (results s \<noteq> [] \<longrightarrow> 0 \<le> selectedIndex s \<and> selectedIndex s < int (length (results s)))"

text \<open>A pointer move comes from a row that is rendered, so its index is one of the list.\<close>

fun hover_ok :: "app \<Rightarrow> event \<Rightarrow> bool" where
  "hover_ok s (MouseMove i mx my) = (0 \<le> i \<and> i < int (length (results s)))"
| "hover_ok s e = True"

fun hovers_ok :: "app \<Rightarrow> (nat \<times> event) list \<Rightarrow> bool" where
  "hovers_ok s [] = True"
| "hovers_ok s (de # es) = (hover_ok (advance (fst de) s) (snd de) \<and> hovers_ok (step s de) es)"

text \<open>The calls in flight carry distinct tokens, none above the counter.\<close>

definition tokens_ok :: "app \<Rightarrow> bool" where
  "tokens_ok s \<longleftrightarrow> distinct (inflight s) \<and> (\<forall>t \<in> set (inflight s). t \<le> latestSearchId s)"

text \<open>The same, as far as it can be kept without a bound on the counter.\<close>

definition tokens_inv :: "app \<Rightarrow> bool" where
  "tokens_inv s \<longleftrightarrow> (latestSearchId s < 2 ^ 53 \<longrightarrow> tokens_ok s)"

text \<open>From one state to a later one: the counter has not gone down, and a call in flight
  later was in flight before or carries a token above the earlier counter.\<close>

definition later :: "app \<Rightarrow> app \<Rightarrow> bool" where
  "later s s' \<longleftrightarrow>
     latestSearchId s \<le> latestSearchId s'
     \<and> (latestSearchId s' < 2 ^ 53 \<longrightarrow>
          (\<forall>t \<in> set (inflight s'). t \<in> set (inflight s) \<or> latestSearchId s < t))"

text \<open>While hovering is suppressed until \<open>D\<close>: the flag is up and no scroll timer fires
  before \<open>D\<close>.\<close>

definition suppressed :: "nat \<Rightarrow> app \<Rightarrow> bool" where
  "suppressed D s \<longleftrightarrow>
     isMouseScrolling s \<and> D \<le> now s + 150
     \<and> (\<forall>t \<in> set (timers s). cb t = ScrollCb \<longrightarrow> D \<le> deadline t)"

text \<open>No scroll timer is set for later than \<open>D\<close>.\<close>

definition expiring :: "nat \<Rightarrow> app \<Rightarrow> bool" where
  "expiring D s \<longleftrightarrow>
     timers_ok s \<and> (\<forall>t \<in> set (timers s). cb t = ScrollCb \<longrightarrow> deadline t \<le> D)"

text \<open>The search timers that have reached their deadline.\<close>

definition dueSearch :: "app \<Rightarrow> timer list" where
  "dueSearch s = filter (\<lambda>t. cb t = SearchCb \<and> deadline t \<le> now s) (timers s)"

text \<open>The state between two inputs of a burst: one search timer is pending, set for 100 ms
  after the last input, and nothing has been sent since the burst began.\<close>

definition armed :: "(int \<times> string) list \<Rightarrow> int \<Rightarrow> string \<Rightarrow> app \<Rightarrow> bool" where
  "armed C L q s \<longleftrightarrow>
     timers_ok s \<and> searchCalls s = C \<and> latestSearchId s = L \<and> query s = q
     \<and> map deadline (filter (\<lambda>t. cb t = SearchCb) (timers s)) = [now s + 100]"

text \<open>The background image is the fixed one, in the settings and in every record sent to
  \<^verbatim>\<open>save_settings\<close>.\<close>

definition pinned :: "app \<Rightarrow> bool" where
  "pinned s \<longleftrightarrow>
     theme_bg_image (settings s) = FIXED_BG_PATH
     \<and> (\<forall>r \<in> set (saveCalls s). theme_bg_image r = FIXED_BG_PATH)"

section \<open>Sample data\<close>

definition item_a :: SearchResult where
  "item_a = \<lparr> id_field = ''a.exe'', title = ''a'', subtitle = ''C:/a.exe'', score = 2,
     action_type = ''app'', action_data = ''C:/a.exe'', file_type = ''Application'' \<rparr>"

definition item_b :: SearchResult where
  "item_b = \<lparr> id_field = ''b.txt'', title = ''b'', subtitle = ''C:/b.txt'', score = 1,
     action_type = ''file'', action_data = ''C:/b.txt'', file_type = ''File'' \<rparr>"

text \<open>The text \<open>rep\<close> is typed; the search leaves 100 ms later and is answered with two
  results after another 20 ms.\<close>

definition loaded :: app where
  "loaded = run init [(0, InputChange ''rep''), (120, SearchOk 1 [item_a, item_b])]"

text \<open>Two searches leave, for \<open>a\<close> and for \<open>ab\<close>; the second is answered first.\<close>

definition race_trace :: "(nat \<times> event) list" where
  "race_trace = [(0, InputChange ''a''), (100, InputChange ''ab''),
     (100, SearchOk 2 [item_b]), (10, SearchOk 1 [item_a, item_b])]"

text \<open>What the backend has stored: every field is there, with another background image.\<close>

definition stored :: SavedSettings where
  "stored = \<lparr> saved_max_results = Some 50, saved_enable_autostart = Some True,
     saved_theme_bg_image = Some ''C:/wall.jpg'', saved_theme_bg_opacity = Some 0.3,
     saved_theme_bg_blur = Some 4 \<rparr>"

text \<open>The first load is answered, the panel is opened and its load answered, the opacity
  is edited and the settings are saved.\<close>

definition save_trace :: "(nat \<times> event) list" where
  "save_trace = [(5, GetSettingsOk stored), (900, ToggleSettings), (5, GetSettingsOk stored),
     (700, EditOpacity 0.5), (400, SaveClick)]"

text \<open>The panel is opened and its load answered; then the opacity is edited and the panel
  is cancelled.\<close>

definition open_trace :: "(nat \<times> event) list" where
  "open_trace = [(5, GetSettingsOk stored), (900, ToggleSettings), (5, GetSettingsOk stored)]"

definition edit_cancel_trace :: "(nat \<times> event) list" where
  "edit_cancel_trace = [(700, EditOpacity 0.5), (400, ToggleSettings)]"

text \<open>The panel is opened again, its load fails, and the settings are saved.\<close>

definition reopen_save_trace :: "(nat \<times> event) list" where
  "reopen_save_trace = [(600, ToggleSettings), (5, GetSettingsErr), (300, SaveClick)]"

section \<open>Lemmas\<close>

subsection \<open>Timers\<close>

lemma earliest_mem: "earliest ts = Some t \<Longrightarrow> t \<in> set ts"
  by (induction ts arbitrary: t) (auto split: option.splits if_splits)

lemma earliest_None: "earliest ts = None \<longleftrightarrow> ts = []"
  by (cases ts) (auto split: option.splits)

lemma nextDue_mem: "nextDue s = Some t \<Longrightarrow> t \<in> set (timers s) \<and> deadline t \<le> now s"
  by (auto simp: nextDue_def dest: earliest_mem)

lemma nextDue_None: "nextDue s = None \<longleftrightarrow> (\<forall>t \<in> set (timers s). now s < deadline t)"
  by (auto simp: nextDue_def earliest_None filter_empty_conv not_le)

lemma timers_fire [simp]: "timers (fire t s) = remove1 t (timers s)"
  by (cases "cb t") (simp_all add: fire_def task_def performSearch_def watchSelectedIndex_def Let_def)

lemma now_fire [simp]: "now (fire t s) = now s"
  by (cases "cb t") (simp_all add: fire_def task_def performSearch_def watchSelectedIndex_def Let_def)

lemma fire_SearchCb:
  "cb t = SearchCb \<Longrightarrow> fire t s = performSearch (query s) (s\<lparr> timers := remove1 t (timers s) \<rparr>)"
  by (simp add: fire_def task_def performSearch_def Let_def)

lemma fire_ScrollCb:
  "cb t = ScrollCb \<Longrightarrow> fire t s = s\<lparr> timers := remove1 t (timers s), isMouseScrolling := False \<rparr>"
  by (simp add: fire_def task_def Let_def)

lemma fireDue_preserves:
  assumes "P s"
    and "\<And>s t. P s \<Longrightarrow> t \<in> set (timers s) \<Longrightarrow> deadline t \<le> now s \<Longrightarrow> P (fire t s)"
  shows "P (fireDue s)"
  using assms(1)
proof (induction s rule: fireDue.induct)
  case (1 s)
  show ?case
  proof (cases "nextDue s")
    case None
    with 1 show ?thesis by (subst fireDue.simps) simp
  next
    case (Some t)
    then have "t \<in> set (timers s)" "deadline t \<le> now s" by (simp_all add: nextDue_mem)
    with 1 Some assms(2) have "P (fireDue (fire t s))" by blast
    with Some show ?thesis by (subst fireDue.simps) simp
  qed
qed

lemma now_fireDue [simp]: "now (fireDue s) = now s"
  by (rule fireDue_preserves [where P = "\<lambda>s'. now s' = now s"]) simp_all

lemma filter_remove1_out: "\<not> P t \<Longrightarrow> filter P (remove1 t ts) = filter P ts"
  by (induction ts) auto

lemma timers_fireDue: "timers (fireDue s) = filter (\<lambda>t. now s < deadline t) (timers s)"
proof (induction s rule: fireDue.induct)
  case (1 s)
  show ?case
  proof (cases "nextDue s")
    case None
    then have "filter (\<lambda>t. now s < deadline t) (timers s) = timers s"
      by (simp add: nextDue_None)
    with None show ?thesis by (subst fireDue.simps) simp
  next
    case (Some t)
    then have t: "t \<in> set (timers s)" "deadline t \<le> now s" by (simp_all add: nextDue_mem)
    have "timers (fireDue (fire t s)) = filter (\<lambda>u. now s < deadline u) (remove1 t (timers s))"
      using 1 [OF Some] by simp
    also have "\<dots> = filter (\<lambda>u. now s < deadline u) (timers s)"
      using t(2) by (simp add: filter_remove1_out)
    finally show ?thesis using Some by (subst fireDue.simps) simp
  qed
qed

lemma now_advance [simp]: "now (advance d s) = now s + d"
  by (simp add: advance_def)

lemma timers_advance: "timers (advance d s) = filter (\<lambda>t. now s + d < deadline t) (timers s)"
  by (simp add: advance_def timers_fireDue)

subsection \<open>Fields that stay\<close>

lemma task_watch_fields [simp]:
  "now (task f s) = now (f s)" "timers (task f s) = timers (f s)"
  "isMouseScrolling (task f s) = isMouseScrolling (f s)"
  "selectedIndex (task f s) = selectedIndex (f s)"
  "results (task f s) = results (f s)"
  "searchTimeout (task f s) = searchTimeout (f s)"
  "scrollTimeout (task f s) = scrollTimeout (f s)"
  "nextTimerId (task f s) = nextTimerId (f s)"
  "searchCalls (task f s) = searchCalls (f s)"
  "latestSearchId (task f s) = latestSearchId (f s)"
  "inflight (task f s) = inflight (f s)"
  "query (task f s) = query (f s)"
  "settings (task f s) = settings (f s)"
  "saveCalls (task f s) = saveCalls (f s)"
  by (simp_all add: task_def watchSelectedIndex_def Let_def)

lemmas handler_defs =
  handleInput_def handleKeyDown_def handleMouseMove_def handleListScroll_def handleExecute_def
  hideWindow_def toggleSettings_def loadSettings_def loadResolved_def loadRejected_def
  saveSettings_def saveResolved_def saveRejected_def performSearch_def searchResolved_def
  searchRejected_def searchFinally_def setTimeout_def clearTimeout_def Let_def

lemma now_handle [simp]: "now (handle e s) = now s"
  by (cases e) (simp_all add: handler_defs)

lemma selectedIndex_fire [simp]: "selectedIndex (fire t s) = selectedIndex s"
  by (cases "cb t") (simp_all add: fire_def task_def performSearch_def Let_def)

lemma selectedIndex_advance [simp]: "selectedIndex (advance d s) = selectedIndex s"
  unfolding advance_def
  by (rule fireDue_preserves [where P = "\<lambda>s'. selectedIndex s' = selectedIndex s"]) simp_all

lemma results_fire [simp]: "results (fire t s) = results s"
  by (cases "cb t") (simp_all add: fire_def task_def performSearch_def Let_def)

lemma results_advance [simp]: "results (advance d s) = results s"
  unfolding advance_def
  by (rule fireDue_preserves [where P = "\<lambda>s'. results s' = results s"]) simp_all

subsection \<open>The timer invariant\<close>

lemma timers_ok_init: "timers_ok init"
  by (simp add: timers_ok_def init_def)

lemma remove1_other_cb: "u \<in> set ts \<Longrightarrow> cb u \<noteq> cb t \<Longrightarrow> u \<in> set (remove1 t ts)"
  by (cases "u = t") (auto simp: in_set_remove1)

lemma timers_ok_shrink:
  assumes "timers_ok s" and "set (timers s') \<subseteq> set (timers s)"
    and "searchTimeout s' = searchTimeout s" and "scrollTimeout s' = scrollTimeout s"
    and "nextTimerId s' = nextTimerId s"
    and "isMouseScrolling s' \<Longrightarrow> \<exists>t \<in> set (timers s'). cb t = ScrollCb"
  shows "timers_ok s'"
  unfolding timers_ok_def
proof (intro conjI ballI impI)
  fix t assume "t \<in> set (timers s')" "cb t = SearchCb"
  with assms(1,2,3) show "searchTimeout s' = Some (tid t)" by (auto simp: timers_ok_def)
next
  fix t assume "t \<in> set (timers s')" "cb t = ScrollCb"
  with assms(1,2,4) show "scrollTimeout s' = Some (tid t)" by (auto simp: timers_ok_def)
next
  assume "isMouseScrolling s'"
  then show "\<exists>t \<in> set (timers s'). cb t = ScrollCb" by (rule assms(6))
qed (use assms(1,3,4,5) in \<open>simp_all add: timers_ok_def\<close>)

lemma timers_ok_fire:
  assumes "timers_ok s" "t \<in> set (timers s)"
  shows "timers_ok (fire t s)"
proof (cases "cb t")
  case SearchCb
  have "\<exists>u \<in> set (remove1 t (timers s)). cb u = ScrollCb" if "isMouseScrolling s"
  proof -
    from that assms(1) obtain u where "u \<in> set (timers s)" "cb u = ScrollCb"
      by (auto simp: timers_ok_def)
    with SearchCb have "u \<in> set (remove1 t (timers s))" by (simp add: remove1_other_cb)
    with \<open>cb u = ScrollCb\<close> show ?thesis by blast
  qed
  with SearchCb show ?thesis
    by (intro timers_ok_shrink [OF assms(1)])
      (simp_all add: fire_SearchCb performSearch_def Let_def set_remove1_subset)
next
  case ScrollCb
  then show ?thesis
    by (intro timers_ok_shrink [OF assms(1)]) (simp_all add: fire_ScrollCb set_remove1_subset)
qed

lemma timers_ok_advance: "timers_ok s \<Longrightarrow> timers_ok (advance d s)"
  unfolding advance_def
  by (rule fireDue_preserves [where P = timers_ok])
    (simp_all add: timers_ok_fire, simp add: timers_ok_def)

lemma handle_ok_Suc: "handle_ok n h \<Longrightarrow> handle_ok (Suc n) h"
  by (cases h) simp_all

lemma handle_ok_fresh: "handle_ok n h \<Longrightarrow> h \<noteq> Some n"
  by (cases h) simp_all

lemma handle_ok_truthy: "handle_ok n (Some h) \<Longrightarrow> truthy (Some h)"
  by (simp add: truthy_def)

lemma timers_handleInput:
  "timers (handleInput s) =
     (if truthy (searchTimeout s) then filter (\<lambda>t. Some (tid t) \<noteq> searchTimeout s) (timers s)
      else timers s) @ [\<lparr> tid = nextTimerId s, deadline = now s + 100, cb = SearchCb \<rparr>]"
  by (simp add: handleInput_def setTimeout_def clearTimeout_def Let_def)

lemma timers_handleListScroll:
  "timers (handleListScroll s) =
     (if truthy (scrollTimeout s) then filter (\<lambda>t. Some (tid t) \<noteq> scrollTimeout s) (timers s)
      else timers s) @ [\<lparr> tid = nextTimerId s, deadline = now s + 150, cb = ScrollCb \<rparr>]"
  by (simp add: handleListScroll_def setTimeout_def clearTimeout_def Let_def)

lemma now_handlers [simp]:
  "now (handleInput s) = now s" "now (handleListScroll s) = now s"
  by (simp_all add: handleInput_def handleListScroll_def setTimeout_def clearTimeout_def Let_def)

lemma handles_handleInput [simp]:
  "searchTimeout (handleInput s) = Some (nextTimerId s)"
  "scrollTimeout (handleInput s) = scrollTimeout s"
  "nextTimerId (handleInput s) = Suc (nextTimerId s)"
  "isMouseScrolling (handleInput s) = isMouseScrolling s"
  by (simp_all add: handleInput_def setTimeout_def clearTimeout_def Let_def)

lemma handles_handleListScroll [simp]:
  "scrollTimeout (handleListScroll s) = Some (nextTimerId s)"
  "searchTimeout (handleListScroll s) = searchTimeout s"
  "nextTimerId (handleListScroll s) = Suc (nextTimerId s)"
  "isMouseScrolling (handleListScroll s) = True"
  by (simp_all add: handleListScroll_def setTimeout_def clearTimeout_def Let_def)

lemma timers_ok_handleInput:
  assumes "timers_ok s"
  shows "timers_ok (handleInput s)"
proof -
  let ?n = "nextTimerId s"
  from assms have ok: "0 < ?n" "handle_ok ?n (searchTimeout s)" "handle_ok ?n (scrollTimeout s)"
    and neq: "searchTimeout s = None \<or> searchTimeout s \<noteq> scrollTimeout s"
    and own: "\<And>t. t \<in> set (timers s) \<Longrightarrow> cb t = SearchCb \<Longrightarrow> searchTimeout s = Some (tid t)"
             "\<And>t. t \<in> set (timers s) \<Longrightarrow> cb t = ScrollCb \<Longrightarrow> scrollTimeout s = Some (tid t)"
    and flag: "isMouseScrolling s \<Longrightarrow> \<exists>t \<in> set (timers s). cb t = ScrollCb"
    by (auto simp: timers_ok_def)
  have gone: "cb t \<noteq> SearchCb \<or> tid t = ?n" if "t \<in> set (timers (handleInput s))" for t
  proof (cases "t \<in> set (timers s) \<and> cb t = SearchCb")
    case True
    then have st: "searchTimeout s = Some (tid t)" by (simp add: own)
    with ok(2) have "truthy (searchTimeout s)" by (simp add: truthy_def)
    with that st True show ?thesis by (auto simp: timers_handleInput)
  next
    case False
    with that show ?thesis by (auto simp: timers_handleInput split: if_splits)
  qed
  have kept: "t \<in> set (timers (handleInput s))" if "t \<in> set (timers s)" "cb t = ScrollCb" for t
  proof -
    from that have "scrollTimeout s = Some (tid t)" by (simp add: own)
    with neq have "Some (tid t) \<noteq> searchTimeout s" by auto
    with that show ?thesis by (simp add: timers_handleInput)
  qed
  have old: "t \<in> set (timers s)" if "t \<in> set (timers (handleInput s))" "cb t = ScrollCb" for t
    using that by (auto simp: timers_handleInput split: if_splits)
  show ?thesis
    unfolding timers_ok_def
  proof (intro conjI ballI impI)
    fix t assume "t \<in> set (timers (handleInput s))" "cb t = SearchCb"
    with gone show "searchTimeout (handleInput s) = Some (tid t)" by auto
  next
    fix t assume "t \<in> set (timers (handleInput s))" "cb t = ScrollCb"
    with old own(2) show "scrollTimeout (handleInput s) = Some (tid t)" by auto
  next
    assume "isMouseScrolling (handleInput s)"
    with flag kept show "\<exists>t \<in> set (timers (handleInput s)). cb t = ScrollCb" by auto
  next
    show "searchTimeout (handleInput s) = None \<or> searchTimeout (handleInput s) \<noteq> scrollTimeout (handleInput s)"
      using handle_ok_fresh [OF ok(3)] by auto
  qed (use ok in \<open>simp_all add: handle_ok_Suc\<close>)
qed

lemma timers_ok_handleListScroll:
  assumes "timers_ok s"
  shows "timers_ok (handleListScroll s)"
proof -
  let ?n = "nextTimerId s"
  from assms have ok: "0 < ?n" "handle_ok ?n (searchTimeout s)" "handle_ok ?n (scrollTimeout s)"
    and neq: "searchTimeout s = None \<or> searchTimeout s \<noteq> scrollTimeout s"
    and own: "\<And>t. t \<in> set (timers s) \<Longrightarrow> cb t = SearchCb \<Longrightarrow> searchTimeout s = Some (tid t)"
             "\<And>t. t \<in> set (timers s) \<Longrightarrow> cb t = ScrollCb \<Longrightarrow> scrollTimeout s = Some (tid t)"
    by (auto simp: timers_ok_def)
  have gone: "cb t \<noteq> ScrollCb \<or> tid t = ?n" if "t \<in> set (timers (handleListScroll s))" for t
  proof (cases "t \<in> set (timers s) \<and> cb t = ScrollCb")
    case True
    then have st: "scrollTimeout s = Some (tid t)" by (simp add: own)
    with ok(3) have "truthy (scrollTimeout s)" by (simp add: truthy_def)
    with that st True show ?thesis by (auto simp: timers_handleListScroll)
  next
    case False
    with that show ?thesis by (auto simp: timers_handleListScroll split: if_splits)
  qed
  have old: "t \<in> set (timers s)" if "t \<in> set (timers (handleListScroll s))" "cb t = SearchCb" for t
    using that by (auto simp: timers_handleListScroll split: if_splits)
  show ?thesis
    unfolding timers_ok_def
  proof (intro conjI ballI impI)
    fix t assume "t \<in> set (timers (handleListScroll s))" "cb t = ScrollCb"
    with gone show "scrollTimeout (handleListScroll s) = Some (tid t)" by auto
  next
    fix t assume "t \<in> set (timers (handleListScroll s))" "cb t = SearchCb"
    with old own(1) show "searchTimeout (handleListScroll s) = Some (tid t)" by auto
  next
    show "\<exists>t \<in> set (timers (handleListScroll s)). cb t = ScrollCb"
      by (simp add: timers_handleListScroll)
  next
    show "searchTimeout (handleListScroll s) = None
       \<or> searchTimeout (handleListScroll s) \<noteq> scrollTimeout (handleListScroll s)"
      using handle_ok_fresh [OF ok(2)] by auto
  qed (use ok in \<open>simp_all add: handle_ok_Suc\<close>)
qed

lemma timers_ok_query [simp]: "timers_ok (s\<lparr> query := q \<rparr>) = timers_ok s"
  by (simp add: timers_ok_def)

lemma timers_ok_handle: "timers_ok s \<Longrightarrow> timers_ok (handle e s)"
proof (cases e)
  case (InputChange q)
  then show "timers_ok s \<Longrightarrow> timers_ok (handle e s)" by (simp add: timers_ok_handleInput)
next
  case ListScroll
  then show "timers_ok s \<Longrightarrow> timers_ok (handle e s)" by (simp add: timers_ok_handleListScroll)
qed (simp_all add: timers_ok_def handleKeyDown_def handleMouseMove_def handleExecute_def
      hideWindow_def toggleSettings_def loadSettings_def loadResolved_def loadRejected_def
      saveSettings_def saveResolved_def saveRejected_def performSearch_def searchResolved_def
      searchRejected_def searchFinally_def Let_def)

lemma timers_ok_task: "timers_ok (f s) \<Longrightarrow> timers_ok (task f s)"
  by (simp add: timers_ok_def)

lemma step_pair: "step s (d, e) = task (handle e) (advance d s)"
  by (simp add: step_def)

lemma timers_ok_step: "timers_ok s \<Longrightarrow> timers_ok (step s de)"
  by (cases de) (simp add: step_pair timers_ok_task timers_ok_handle timers_ok_advance)

lemma timers_ok_run: "timers_ok s \<Longrightarrow> timers_ok (run s es)"
  unfolding run_def by (induction es arbitrary: s) (simp_all add: timers_ok_step)

subsection \<open>Scroll suppression\<close>

lemma now_step [simp]: "now (step s (d, e)) = now s + d"
  by (simp add: step_pair)

lemma now_run: "now (run s es) = now s + elapsed es"
  unfolding run_def elapsed_def
  by (induction es arbitrary: s) (auto simp: add.assoc)

lemma run_Cons: "run s (de # es) = run (step s de) es"
  by (simp add: run_def)

lemma run_Nil [simp]: "run s [] = s"
  by (simp add: run_def)

lemma elapsed_Cons [simp]: "elapsed ((d, e) # es) = d + elapsed es"
  by (simp add: elapsed_def)

lemma elapsed_Nil [simp]: "elapsed [] = 0"
  by (simp add: elapsed_def)

lemma isMouseScrolling_handle:
  "isMouseScrolling (handle e s) = (isMouseScrolling s \<or> e = ListScroll)"
  by (cases e)
    (simp_all add: handleKeyDown_def handleMouseMove_def handleExecute_def
      hideWindow_def toggleSettings_def loadSettings_def loadResolved_def loadRejected_def
      saveSettings_def saveResolved_def saveRejected_def performSearch_def searchResolved_def
      searchRejected_def searchFinally_def Let_def)

lemma timers_handle:
  "t \<in> set (timers (handle e s)) \<Longrightarrow>
     t \<in> set (timers s)
     \<or> (e = ListScroll \<and> t = \<lparr> tid = nextTimerId s, deadline = now s + 150, cb = ScrollCb \<rparr>)
     \<or> (\<exists>q. e = InputChange q) \<and> t = \<lparr> tid = nextTimerId s, deadline = now s + 100, cb = SearchCb \<rparr>"
  by (cases e)
    (auto simp add: timers_handleInput timers_handleListScroll handleKeyDown_def handleMouseMove_def handleExecute_def
      hideWindow_def toggleSettings_def loadSettings_def loadResolved_def loadRejected_def
      saveSettings_def saveResolved_def saveRejected_def performSearch_def searchResolved_def
      searchRejected_def searchFinally_def Let_def split: if_splits)

lemma suppressed_advance:
  assumes "suppressed D s" "now s + d < D"
  shows "suppressed D (advance d s)"
proof -
  let ?P = "\<lambda>s'. suppressed D s' \<and> now s' = now s + d"
  have "?P (fireDue (s\<lparr> now := now s + d \<rparr>))"
  proof (rule fireDue_preserves [where P = ?P])
    show "?P (s\<lparr> now := now s + d \<rparr>)" using assms by (simp add: suppressed_def)
  next
    fix s' t assume P: "?P s'" and t: "t \<in> set (timers s')" "deadline t \<le> now s'"
    with assms(2) have "cb t \<noteq> ScrollCb" by (auto simp: suppressed_def)
    then have "cb t = SearchCb" by (cases "cb t") simp_all
    with P show "?P (fire t s')"
      by (auto simp: fire_SearchCb suppressed_def performSearch_def Let_def dest: notin_set_remove1)
  qed
  then show ?thesis by (simp add: advance_def)
qed

lemma suppressed_step:
  assumes "suppressed D s" "now s + d < D"
  shows "suppressed D (step s (d, e))"
proof -
  have a: "suppressed D (advance d s)" using assms by (rule suppressed_advance)
  have "D \<le> deadline t" if "t \<in> set (timers (handle e (advance d s)))" "cb t = ScrollCb" for t
    using timers_handle [OF that(1)] that(2) a by (auto simp: suppressed_def)
  with a show ?thesis by (simp add: step_pair suppressed_def isMouseScrolling_handle)
qed

lemma suppressed_run:
  "suppressed D s \<Longrightarrow> now s + elapsed es < D \<Longrightarrow> suppressed D (run s es)"
proof (induction es arbitrary: s)
  case Nil
  then show ?case by simp
next
  case (Cons de es)
  obtain d e where de: "de = (d, e)" by (cases de)
  with Cons.prems have "suppressed D (step s (d, e))" by (simp add: suppressed_step)
  moreover from Cons.prems de have "now (step s (d, e)) + elapsed es < D" by simp
  ultimately show ?case using de Cons.IH by (simp add: run_Cons)
qed

lemma scroll_timers_handleListScroll:
  assumes "timers_ok s"
  shows "filter (\<lambda>t. cb t = ScrollCb) (timers (handleListScroll s)) =
           [\<lparr> tid = nextTimerId s, deadline = now s + 150, cb = ScrollCb \<rparr>]"
proof -
  have "truthy (scrollTimeout s) \<and> Some (tid t) = scrollTimeout s"
    if "t \<in> set (timers s)" "cb t = ScrollCb" for t
    using that assms by (cases "scrollTimeout s") (auto simp: timers_ok_def truthy_def)
  then have "filter (\<lambda>t. cb t = ScrollCb)
      (if truthy (scrollTimeout s) then filter (\<lambda>t. Some (tid t) \<noteq> scrollTimeout s) (timers s)
       else timers s) = []"
    by (auto simp: filter_empty_conv)
  then show ?thesis by (simp add: timers_handleListScroll)
qed

lemma suppressed_after_scroll:
  assumes "timers_ok s"
  shows "suppressed (now s + 150) (task (handle ListScroll) s)"
proof -
  have "\<forall>t \<in> set (filter (\<lambda>t. cb t = ScrollCb) (timers (handleListScroll s))). deadline t = now s + 150"
    by (simp add: scroll_timers_handleListScroll [OF assms])
  then show ?thesis by (auto simp: suppressed_def)
qed

lemma step_ListScroll: "step s (d, ListScroll) = task (handle ListScroll) (advance d s)"
  by (simp add: step_pair)

lemma hover_suppressed:
  assumes "timers_ok s" "elapsed es + d < 150"
  shows "selectedIndex (step (run (step s (d0, ListScroll)) es) (d, MouseMove i mx my))
       = selectedIndex (run (step s (d0, ListScroll)) es)"
proof -
  let ?s1 = "step s (d0, ListScroll)"
  let ?D = "now s + d0 + 150"
  have "suppressed ?D ?s1"
    using suppressed_after_scroll [OF timers_ok_advance [OF assms(1)], of d0]
    by (simp add: step_ListScroll)
  moreover have "now ?s1 + elapsed es < ?D" using assms(2) by simp
  ultimately have r: "suppressed ?D (run ?s1 es)" by (rule suppressed_run)
  have "now (run ?s1 es) + d < ?D" using assms(2) by (simp add: now_run)
  with r have "suppressed ?D (advance d (run ?s1 es))" by (rule suppressed_advance)
  then have "isMouseScrolling (advance d (run ?s1 es))" by (simp add: suppressed_def)
  then show ?thesis by (simp add: step_pair handleMouseMove_def)
qed

lemma expiring_step:
  assumes "expiring D s" "e \<noteq> ListScroll"
  shows "expiring D (step s (d, e))"
proof -
  have a: "expiring D (advance d s)"
    using assms(1) by (auto simp: expiring_def timers_ok_advance timers_advance)
  have "deadline t \<le> D" if "t \<in> set (timers (handle e (advance d s)))" "cb t = ScrollCb" for t
    using timers_handle [OF that(1)] that(2) a assms(2) by (auto simp: expiring_def)
  with a show ?thesis by (simp add: step_pair expiring_def timers_ok_task timers_ok_handle)
qed

lemma expiring_run:
  "expiring D s \<Longrightarrow> ListScroll \<notin> snd ` set es \<Longrightarrow> expiring D (run s es)"
proof (induction es arbitrary: s)
  case Nil
  then show ?case by simp
next
  case (Cons de es)
  obtain d e where de: "de = (d, e)" by (cases de)
  from Cons.prems de have "e \<noteq> ListScroll" by auto
  with Cons.prems have "expiring D (step s (d, e))" by (intro expiring_step)
  with Cons de show ?case by (simp add: run_Cons)
qed

lemma expired_flag:
  assumes "expiring D s" "D \<le> now s + d"
  shows "\<not> isMouseScrolling (advance d s)"
proof
  assume "isMouseScrolling (advance d s)"
  moreover have "timers_ok (advance d s)" using assms(1) by (simp add: expiring_def timers_ok_advance)
  ultimately obtain t where "t \<in> set (timers (advance d s))" "cb t = ScrollCb"
    by (auto simp: timers_ok_def)
  with assms show False by (auto simp: timers_advance expiring_def)
qed

lemma hover_accepted:
  assumes "timers_ok s" "ListScroll \<notin> snd ` set es" "150 \<le> elapsed es + d" "mx \<noteq> 0 \<or> my \<noteq> 0"
  shows "selectedIndex (step (run (step s (d0, ListScroll)) es) (d, MouseMove i mx my)) = i"
proof -
  let ?s1 = "step s (d0, ListScroll)"
  let ?D = "now s + d0 + 150"
  have ok: "timers_ok (advance d0 s)" using assms(1) by (rule timers_ok_advance)
  have "\<forall>t \<in> set (filter (\<lambda>t. cb t = ScrollCb) (timers (handleListScroll (advance d0 s)))). deadline t = ?D"
    by (simp add: scroll_timers_handleListScroll [OF ok])
  then have "expiring ?D ?s1"
    using ok by (auto simp: step_pair expiring_def timers_ok_task timers_ok_handleListScroll)
  then have "expiring ?D (run ?s1 es)" using assms(2) by (rule expiring_run)
  moreover have "?D \<le> now (run ?s1 es) + d" using assms(3) by (simp add: now_run)
  ultimately have "\<not> isMouseScrolling (advance d (run ?s1 es))" by (rule expired_flag)
  with assms(4) show ?thesis by (auto simp: step_pair handleMouseMove_def)
qed

subsection \<open>Debounce\<close>

lemma dueSearch_fire_ScrollCb: "cb t = ScrollCb \<Longrightarrow> dueSearch (fire t s) = dueSearch s"
  by (simp add: dueSearch_def filter_remove1_out)

lemma dueSearch_fire_SearchCb:
  "cb t = SearchCb \<Longrightarrow> deadline t \<le> now s \<Longrightarrow> t \<in> set (timers s) \<Longrightarrow>
     Suc (length (dueSearch (fire t s))) = length (dueSearch s)"
proof -
  assume a: "cb t = SearchCb" "deadline t \<le> now s" "t \<in> set (timers s)"
  then have "t \<in> set (dueSearch s)" by (simp add: dueSearch_def)
  moreover have "dueSearch (fire t s) = remove1 t (dueSearch s)"
    by (simp add: dueSearch_def filter_remove1)
  ultimately show ?thesis
    using length_pos_if_in_set [of t "dueSearch s"] by (simp add: length_remove1)
qed

lemma quiet_fireDue:
  assumes "dueSearch s = []"
  shows "searchCalls (fireDue s) = searchCalls s \<and> latestSearchId (fireDue s) = latestSearchId s
       \<and> query (fireDue s) = query s"
proof -
  let ?P = "\<lambda>s'. dueSearch s' = [] \<and> searchCalls s' = searchCalls s
            \<and> latestSearchId s' = latestSearchId s \<and> query s' = query s"
  have "?P (fireDue s)"
  proof (rule fireDue_preserves [where P = ?P])
    show "?P s" using assms by simp
  next
    fix s' t assume P: "?P s'" and t: "t \<in> set (timers s')" "deadline t \<le> now s'"
    then have "cb t \<noteq> SearchCb" by (auto simp: dueSearch_def filter_empty_conv)
    then have c: "cb t = ScrollCb" by (cases "cb t") simp_all
    with P show "?P (fire t s')" by (simp add: dueSearch_fire_ScrollCb) (simp add: fire_ScrollCb)
  qed
  then show ?thesis by simp
qed

lemma single_fireDue:
  "length (dueSearch s) = 1 \<Longrightarrow>
     searchCalls (fireDue s) = searchCalls s @ [(js_incr (latestSearchId s), query s)]"
proof (induction s rule: fireDue.induct)
  case (1 s)
  show ?case
  proof (cases "nextDue s")
    case None
    then have "dueSearch s = []" by (auto simp: nextDue_None dueSearch_def filter_empty_conv)
    with 1 show ?thesis by simp
  next
    case (Some t)
    then have t: "t \<in> set (timers s)" "deadline t \<le> now s" by (simp_all add: nextDue_mem)
    show ?thesis
    proof (cases "cb t")
      case SearchCb
      with t 1(2) have "dueSearch (fire t s) = []"
        using dueSearch_fire_SearchCb [of t s] by simp
      then have "searchCalls (fireDue (fire t s)) = searchCalls (fire t s)"
        by (simp add: quiet_fireDue)
      with Some SearchCb show ?thesis
        by (subst fireDue.simps) (simp add: fire_SearchCb performSearch_def Let_def)
    next
      case ScrollCb
      with 1(2) have "length (dueSearch (fire t s)) = 1" by (simp add: dueSearch_fire_ScrollCb)
      with 1(1) [OF Some] have
        "searchCalls (fireDue (fire t s)) =
           searchCalls (fire t s) @ [(js_incr (latestSearchId (fire t s)), query (fire t s))]"
        by simp
      with Some ScrollCb show ?thesis
        by (subst fireDue.simps) (simp add: fire_ScrollCb)
    qed
  qed
qed

lemma search_timers_handleInput:
  assumes "timers_ok s"
  shows "filter (\<lambda>t. cb t = SearchCb) (timers (handleInput s)) =
           [\<lparr> tid = nextTimerId s, deadline = now s + 100, cb = SearchCb \<rparr>]"
proof -
  have "truthy (searchTimeout s) \<and> Some (tid t) = searchTimeout s"
    if "t \<in> set (timers s)" "cb t = SearchCb" for t
    using that assms by (cases "searchTimeout s") (auto simp: timers_ok_def truthy_def)
  then have "filter (\<lambda>t. cb t = SearchCb)
      (if truthy (searchTimeout s) then filter (\<lambda>t. Some (tid t) \<noteq> searchTimeout s) (timers s)
       else timers s) = []"
    by (auto simp: filter_empty_conv)
  then show ?thesis by (simp add: timers_handleInput)
qed

lemma fields_handleInput [simp]:
  "searchCalls (handleInput s) = searchCalls s" "latestSearchId (handleInput s) = latestSearchId s"
  "query (handleInput s) = query s"
  by (simp_all add: handleInput_def setTimeout_def clearTimeout_def Let_def)

lemma armed_input:
  assumes "timers_ok s"
  shows "armed (searchCalls s) (latestSearchId s) q (task (handle (InputChange q)) s)"
  using assms search_timers_handleInput [of "s\<lparr> query := q \<rparr>"]
  by (simp add: armed_def timers_ok_task timers_ok_handleInput)

lemma dueSearch_advance:
  "dueSearch (s\<lparr> now := now s + d \<rparr>) =
     filter (\<lambda>t. deadline t \<le> now s + d) (filter (\<lambda>t. cb t = SearchCb) (timers s))"
  by (simp add: dueSearch_def conj_commute)

lemma armed_dueSearch:
  assumes "armed C L q s"
  shows "d < 100 \<Longrightarrow> dueSearch (s\<lparr> now := now s + d \<rparr>) = []"
    and "100 \<le> d \<Longrightarrow> length (dueSearch (s\<lparr> now := now s + d \<rparr>)) = 1"
proof -
  from assms obtain t where t: "filter (\<lambda>t. cb t = SearchCb) (timers s) = [t]"
    and dl: "deadline t = now s + 100"
    by (auto simp: armed_def)
  show "d < 100 \<Longrightarrow> dueSearch (s\<lparr> now := now s + d \<rparr>) = []"
    by (simp add: dueSearch_advance t dl)
  show "100 \<le> d \<Longrightarrow> length (dueSearch (s\<lparr> now := now s + d \<rparr>)) = 1"
    by (simp add: dueSearch_advance t dl)
qed

lemma armed_quiet:
  assumes "armed C L q s" "d < 100"
  shows "searchCalls (advance d s) = C \<and> latestSearchId (advance d s) = L
    \<and> query (advance d s) = q \<and> timers_ok (advance d s)"
  using quiet_fireDue [OF armed_dueSearch(1) [OF assms]] assms(1)
  by (simp add: advance_def armed_def timers_ok_advance [unfolded advance_def])

lemma armed_step:
  assumes "armed C L q s" "g < 100"
  shows "armed C L q' (step s (g, InputChange q'))"
proof -
  from armed_quiet [OF assms] have a: "searchCalls (advance g s) = C"
    "latestSearchId (advance g s) = L" "timers_ok (advance g s)" by simp_all
  from armed_input [OF a(3), of q'] a(1,2) show ?thesis by (simp add: step_pair)
qed

lemma armed_run:
  "armed C L q s \<Longrightarrow> \<forall>g \<in> fst ` set burst. g < 100 \<Longrightarrow>
     armed C L (last (q # map snd burst)) (run s (inputs burst))"
proof (induction burst arbitrary: s q)
  case Nil
  then show ?case by (simp add: inputs_def)
next
  case (Cons gq burst)
  obtain g q' where gq: "gq = (g, q')" by (cases gq)
  with Cons.prems have "armed C L q' (step s (g, InputChange q'))" by (simp add: armed_step)
  with Cons gq show ?case by (simp add: inputs_def run_Cons)
qed

lemma burst_fires_once:
  assumes "timers_ok s" "\<forall>g \<in> fst ` set burst. g < 100"
  shows "d < 100 \<Longrightarrow>
           searchCalls (advance d (run (task (handle (InputChange q0)) s) (inputs burst))) = searchCalls s"
    and "100 \<le> d \<Longrightarrow>
           searchCalls (advance d (run (task (handle (InputChange q0)) s) (inputs burst)))
             = searchCalls s @ [(js_incr (latestSearchId s), last (q0 # map snd burst))]"
proof -
  let ?b = "run (task (handle (InputChange q0)) s) (inputs burst)"
  have a: "armed (searchCalls s) (latestSearchId s) (last (q0 # map snd burst)) ?b"
    using armed_input [OF assms(1)] assms(2) by (rule armed_run)
  show "d < 100 \<Longrightarrow> searchCalls (advance d ?b) = searchCalls s"
    using armed_quiet [OF a] by simp
  show "100 \<le> d \<Longrightarrow> searchCalls (advance d ?b)
      = searchCalls s @ [(js_incr (latestSearchId s), last (q0 # map snd burst))]"
    using single_fireDue [OF armed_dueSearch(2) [OF a]] a by (simp add: advance_def armed_def)
qed

subsection \<open>Tokens\<close>

lemma in_set_remove1D: "x \<in> set (remove1 y xs) \<Longrightarrow> x \<in> set xs"
  using notin_set_remove1 by fastforce

lemma js_incr_ge: "n \<le> js_incr n"
  by (simp add: js_incr_def)

lemma js_incr_below: "js_incr n < 2 ^ 53 \<Longrightarrow> js_incr n = n + 1"
  by (simp add: js_incr_def split: if_splits)

lemma latest_task [simp]: "latestSearchId (task f s) = latestSearchId (f s)"
  by (simp add: task_def watchSelectedIndex_def Let_def)

lemma latest_handle: "latestSearchId s \<le> latestSearchId (handle e s)"
  using js_incr_ge [of "latestSearchId s"]
  by (cases e)
    (simp_all add: handleInput_def handleListScroll_def setTimeout_def clearTimeout_def
      handleKeyDown_def handleMouseMove_def handleExecute_def
      hideWindow_def toggleSettings_def loadSettings_def loadResolved_def loadRejected_def
      saveSettings_def saveResolved_def saveRejected_def performSearch_def searchResolved_def
      searchRejected_def searchFinally_def Let_def)

lemma latest_fire: "latestSearchId s \<le> latestSearchId (fire t s)"
  using js_incr_ge [of "latestSearchId s"]
  by (cases "cb t") (simp_all add: fire_SearchCb fire_ScrollCb performSearch_def Let_def)

lemma latest_advance: "latestSearchId s \<le> latestSearchId (advance d s)"
  unfolding advance_def
proof (rule fireDue_preserves [where P = "\<lambda>s'. latestSearchId s \<le> latestSearchId s'"])
  fix s' :: app and t assume "latestSearchId s \<le> latestSearchId s'"
  with latest_fire [of s' t] show "latestSearchId s \<le> latestSearchId (fire t s')" by simp
qed simp

lemma latest_step: "latestSearchId s \<le> latestSearchId (step s de)"
proof (cases de)
  case (Pair d e)
  have "latestSearchId s \<le> latestSearchId (advance d s)" by (rule latest_advance)
  also have "\<dots> \<le> latestSearchId (handle e (advance d s))" by (rule latest_handle)
  finally show ?thesis using Pair by (simp add: step_pair)
qed

lemma latest_run: "latestSearchId s \<le> latestSearchId (run s es)"
proof (induction es arbitrary: s)
  case Nil
  show ?case by simp
next
  case (Cons de es)
  have "latestSearchId s \<le> latestSearchId (step s de)" by (rule latest_step)
  also have "\<dots> \<le> latestSearchId (run (step s de) es)" by (rule Cons.IH)
  finally show ?case by (simp add: run_Cons)
qed

lemma tokens_inv_performSearch: "tokens_inv s \<Longrightarrow> tokens_inv (performSearch q s)"
  unfolding tokens_inv_def tokens_ok_def performSearch_def Let_def
  by (auto simp: js_incr_def split: if_splits)

lemma tokens_ok_remove:
  "tokens_ok s \<Longrightarrow> inflight s' = remove1 tok (inflight s) \<Longrightarrow> latestSearchId s' = latestSearchId s
     \<Longrightarrow> tokens_ok s'"
  by (auto simp: tokens_ok_def dest: notin_set_remove1)

lemma tokens_inv_handle: "tokens_inv s \<Longrightarrow> tokens_inv (handle e s)"
proof (cases e)
  case (KeyDown k)
  assume "tokens_inv s"
  then have "tokens_inv (performSearch [] (s\<lparr> query := [] \<rparr>))"
    by (intro tokens_inv_performSearch) (simp add: tokens_inv_def tokens_ok_def)
  with \<open>tokens_inv s\<close> KeyDown show ?thesis
    by (auto simp: handleKeyDown_def handleExecute_def hideWindow_def Let_def tokens_inv_def tokens_ok_def)
next
  case SaveSettingsOk
  assume "tokens_inv s"
  then have "tokens_inv (performSearch (query s) (s\<lparr> pendingSaves := pendingSaves s - 1, showSettings := False \<rparr>))"
    by (intro tokens_inv_performSearch) (simp add: tokens_inv_def tokens_ok_def)
  with \<open>tokens_inv s\<close> SaveSettingsOk show ?thesis
    by (auto simp: saveResolved_def Let_def)
next
  case (SearchOk tok res)
  assume "tokens_inv s"
  with SearchOk show ?thesis
    by (auto simp: tokens_inv_def searchResolved_def searchFinally_def
        intro: tokens_ok_remove [where tok = tok and s = s])
next
  case (SearchErr tok)
  assume "tokens_inv s"
  with SearchErr show ?thesis
    by (auto simp: tokens_inv_def searchRejected_def searchFinally_def
        intro: tokens_ok_remove [where tok = tok and s = s])
qed (simp_all add: tokens_inv_def tokens_ok_def handleInput_def handleListScroll_def setTimeout_def
      clearTimeout_def handleMouseMove_def handleExecute_def toggleSettings_def loadSettings_def
      loadResolved_def loadRejected_def saveSettings_def saveRejected_def Let_def)

lemma tokens_inv_fire: "tokens_inv s \<Longrightarrow> tokens_inv (fire t s)"
proof (cases "cb t")
  case SearchCb
  assume "tokens_inv s"
  then have "tokens_inv (performSearch (query s) (s\<lparr> timers := remove1 t (timers s) \<rparr>))"
    by (intro tokens_inv_performSearch) (simp add: tokens_inv_def tokens_ok_def)
  with SearchCb show ?thesis by (simp add: fire_SearchCb)
next
  case ScrollCb
  assume "tokens_inv s"
  with ScrollCb show ?thesis by (simp add: fire_ScrollCb tokens_inv_def tokens_ok_def)
qed

lemma tokens_inv_advance: "tokens_inv s \<Longrightarrow> tokens_inv (advance d s)"
  unfolding advance_def
  by (rule fireDue_preserves [where P = tokens_inv])
    (simp_all add: tokens_inv_fire, simp add: tokens_inv_def tokens_ok_def)

lemma tokens_inv_task: "tokens_inv (f s) \<Longrightarrow> tokens_inv (task f s)"
  by (simp add: tokens_inv_def tokens_ok_def)

lemma tokens_inv_step: "tokens_inv s \<Longrightarrow> tokens_inv (step s de)"
  by (cases de) (simp add: step_pair tokens_inv_task tokens_inv_handle tokens_inv_advance)

lemma later_refl: "later s s"
  by (simp add: later_def)

lemma later_performSearch: "later s s' \<Longrightarrow> later s (performSearch q s')"
  unfolding later_def performSearch_def Let_def
  by (auto simp: js_incr_def split: if_splits)

lemma later_same:
  "later s s' \<Longrightarrow> latestSearchId s'' = latestSearchId s' \<Longrightarrow> set (inflight s'') \<subseteq> set (inflight s')
     \<Longrightarrow> later s s''"
  by (auto simp: later_def)

lemma later_handle: "later s s' \<Longrightarrow> later s (handle e s')"
proof (cases e)
  case (KeyDown k)
  assume l: "later s s'"
  then have "later s (performSearch [] (s'\<lparr> query := [] \<rparr>))"
    by (intro later_performSearch) (simp add: later_def)
  with l KeyDown show ?thesis
    by (auto simp: handleKeyDown_def handleExecute_def hideWindow_def Let_def later_def)
next
  case SaveSettingsOk
  assume l: "later s s'"
  then have "later s (performSearch (query s') (s'\<lparr> pendingSaves := pendingSaves s' - 1, showSettings := False \<rparr>))"
    by (intro later_performSearch) (simp add: later_def)
  with l SaveSettingsOk show ?thesis by (auto simp: saveResolved_def Let_def)
next
  case (SearchOk tok res)
  assume "later s s'"
  with SearchOk show ?thesis
    by (auto simp: searchResolved_def searchFinally_def intro!: later_same [where s' = s']
        dest: in_set_remove1D)
next
  case (SearchErr tok)
  assume "later s s'"
  with SearchErr show ?thesis
    by (auto simp: searchRejected_def searchFinally_def intro!: later_same [where s' = s']
        dest: in_set_remove1D)
qed (simp_all add: later_def handleInput_def handleListScroll_def setTimeout_def
      clearTimeout_def handleMouseMove_def handleExecute_def toggleSettings_def loadSettings_def
      loadResolved_def loadRejected_def saveSettings_def saveRejected_def Let_def)

lemma later_fire: "later s s' \<Longrightarrow> later s (fire t s')"
proof (cases "cb t")
  case SearchCb
  assume "later s s'"
  then have "later s (performSearch (query s') (s'\<lparr> timers := remove1 t (timers s') \<rparr>))"
    by (intro later_performSearch) (simp add: later_def)
  with SearchCb show ?thesis by (simp add: fire_SearchCb)
next
  case ScrollCb
  assume "later s s'"
  with ScrollCb show ?thesis by (simp add: fire_ScrollCb later_def)
qed

lemma later_advance: "later s (advance d s)"
  unfolding advance_def
  by (rule fireDue_preserves [where P = "later s"]) (simp_all add: later_fire, simp add: later_def)

lemma later_step: "later s (step s de)"
proof (cases de)
  case (Pair d e)
  have "later s (handle e (advance d s))" using later_advance by (rule later_handle)
  then have "later s (task (handle e) (advance d s))" by (simp add: later_def)
  with Pair show ?thesis by (simp add: step_pair)
qed

subsection \<open>Accepted answers\<close>

lemma acceptedAt_cases:
  "acceptedAt s e = [] \<or> (\<exists>r. acceptedAt s e = [(latestSearchId s, r)] \<and> latestSearchId s \<in> set (inflight s))"
  by (cases e) auto

lemma accepted_none: "acceptedAt s e = [] \<Longrightarrow> results (handle e s) = results s"
  by (cases e)
    (auto simp add: handleInput_def handleListScroll_def setTimeout_def clearTimeout_def
      handleKeyDown_def handleMouseMove_def handleExecute_def
      hideWindow_def toggleSettings_def loadSettings_def loadResolved_def loadRejected_def
      saveSettings_def saveResolved_def saveRejected_def performSearch_def searchResolved_def
      searchRejected_def searchFinally_def Let_def split: if_splits)

lemma accepted_one:
  "acceptedAt s e = [(tok, r)] \<Longrightarrow>
     results (handle e s) = r \<and> latestSearchId (handle e s) = tok
     \<and> inflight (handle e s) = remove1 tok (inflight s)"
  by (cases e) (auto simp add: searchResolved_def searchRejected_def searchFinally_def split: if_splits)

lemma results_step:
  "results (step s de) =
     (if acceptedAt (advance (fst de) s) (snd de) = [] then results s
      else snd (last (acceptedAt (advance (fst de) s) (snd de))))"
proof (cases de)
  case (Pair d e)
  show ?thesis
    using acceptedAt_cases [of "advance d s" e] Pair
    by (auto simp: step_pair accepted_none dest: accepted_one)
qed

lemma results_run:
  "results (run s es) =
     (if acceptedLog s es = [] then results s else snd (last (acceptedLog s es)))"
proof (induction es arbitrary: s)
  case Nil
  show ?case by simp
next
  case (Cons de es)
  show ?case
    using Cons.IH [of "step s de"] results_step [of s de] by (simp add: run_Cons)
qed

lemma accepted_bounds:
  "(t, r) \<in> set (acceptedLog s es) \<Longrightarrow> latestSearchId (run s es) < 2 ^ 53 \<Longrightarrow>
     latestSearchId s \<le> t \<and> (t \<in> set (inflight s) \<or> latestSearchId s < t)"
proof (induction es arbitrary: s)
  case Nil
  then show ?case by simp
next
  case (Cons de es)
  obtain d e where de: "de = (d, e)" by (cases de)
  let ?s1 = "advance d s" and ?s2 = "step s de"
  have b2: "latestSearchId ?s2 < 2 ^ 53"
    using latest_run [of ?s2 es] Cons.prems(2) by (simp add: run_Cons)
  have b1: "latestSearchId ?s1 < 2 ^ 53"
    using latest_handle [of ?s1 e] b2 de by (simp add: step_pair)
  from Cons.prems(1) de consider "(t, r) \<in> set (acceptedAt ?s1 e)" | "(t, r) \<in> set (acceptedLog ?s2 es)"
    by auto
  then show ?case
  proof cases
    case 1
    with acceptedAt_cases [of ?s1 e] have "t = latestSearchId ?s1" "t \<in> set (inflight ?s1)" by auto
    with later_advance [of s d] b1 latest_advance [of s d] show ?thesis by (auto simp: later_def)
  next
    case 2
    with Cons.IH [of ?s2] Cons.prems(2)
    have "latestSearchId ?s2 \<le> t" "t \<in> set (inflight ?s2) \<or> latestSearchId ?s2 < t"
      by (simp_all add: run_Cons)
    with later_step [of s de] b2 latest_step [of s de] show ?thesis by (auto simp: later_def)
  qed
qed

lemma accepted_increasing:
  "tokens_inv s \<Longrightarrow> latestSearchId (run s es) < 2 ^ 53 \<Longrightarrow>
     sorted_wrt (<) (map fst (acceptedLog s es))"
proof (induction es arbitrary: s)
  case Nil
  then show ?case by simp
next
  case (Cons de es)
  obtain d e where de: "de = (d, e)" by (cases de)
  let ?s1 = "advance d s" and ?s2 = "step s de"
  have b2: "latestSearchId ?s2 < 2 ^ 53"
    using latest_run [of ?s2 es] Cons.prems(2) by (simp add: run_Cons)
  have b1: "latestSearchId ?s1 < 2 ^ 53"
    using latest_handle [of ?s1 e] b2 de by (simp add: step_pair)
  have i1: "tokens_ok ?s1" using Cons.prems(1) b1 tokens_inv_advance [of s d] by (simp add: tokens_inv_def)
  have i2: "tokens_ok ?s2" using Cons.prems(1) b2 tokens_inv_step [of s de] by (simp add: tokens_inv_def)
  have rest: "sorted_wrt (<) (map fst (acceptedLog ?s2 es))"
    using Cons.IH [of ?s2] Cons.prems tokens_inv_step [of s de] by (simp add: run_Cons)
  have "tok < t" if a: "acceptedAt ?s1 e = [(tok, r)]" and m: "(t, r') \<in> set (acceptedLog ?s2 es)"
    for tok r t r'
  proof -
    from accepted_one [OF a] de have s2: "latestSearchId ?s2 = tok"
      "inflight ?s2 = remove1 tok (inflight ?s1)" by (simp_all add: step_pair)
    from i1 s2(2) have "tok \<notin> set (inflight ?s2)" by (simp add: tokens_ok_def)
    moreover from accepted_bounds [OF m] Cons.prems(2) s2(1)
    have "tok \<le> t" "t \<in> set (inflight ?s2) \<or> tok < t" by (simp_all add: run_Cons)
    moreover from i2 s2(1) have "t \<in> set (inflight ?s2) \<Longrightarrow> t \<le> tok" by (simp add: tokens_ok_def)
    ultimately show ?thesis by (cases "t = tok") auto
  qed
  with rest acceptedAt_cases [of ?s1 e] de show ?case
    by (auto simp: sorted_wrt_append)
qed

lemma highest_increasing:
  "sorted_wrt (<) (map fst xs) \<Longrightarrow> highest xs = (if xs = [] then None else Some (last xs))"
proof (induction xs)
  case Nil
  show ?case by simp
next
  case (Cons x xs)
  show ?case
  proof (cases xs)
    case Nil
    then show ?thesis by simp
  next
    case (Cons y ys)
    with Cons.prems have "fst x < fst (last xs)" by auto
    with Cons.IH Cons.prems Cons show ?thesis by simp
  qed
qed

lemma results_highest_accepted:
  assumes "tokens_ok s" "latestSearchId (run s es) < 2 ^ 53"
  shows "results (run s es) = (case highest (acceptedLog s es) of None \<Rightarrow> results s | Some (tok, r) \<Rightarrow> r)"
    and "sorted_wrt (<) (map fst (acceptedLog s es))"
proof -
  from assms(1) have "tokens_inv s" by (simp add: tokens_inv_def)
  then show inc: "sorted_wrt (<) (map fst (acceptedLog s es))"
    using assms(2) by (rule accepted_increasing)
  show "results (run s es) = (case highest (acceptedLog s es) of None \<Rightarrow> results s | Some (tok, r) \<Rightarrow> r)"
    by (simp add: results_run highest_increasing [OF inc] split: prod.splits)
qed

subsection \<open>The pinned field\<close>

lemma pinned_fire: "pinned s \<Longrightarrow> pinned (fire t s)"
  by (cases "cb t") (simp_all add: fire_SearchCb fire_ScrollCb pinned_def performSearch_def Let_def)

lemma pinned_advance: "pinned s \<Longrightarrow> pinned (advance d s)"
  unfolding advance_def
  by (rule fireDue_preserves [where P = pinned]) (simp_all add: pinned_fire, simp add: pinned_def)

lemma pinned_handle: "pinned s \<Longrightarrow> pinned (handle e s)"
  by (cases e)
    (auto simp add: pinned_def handleInput_def handleListScroll_def setTimeout_def clearTimeout_def
      handleKeyDown_def handleMouseMove_def handleExecute_def
      hideWindow_def toggleSettings_def loadSettings_def loadResolved_def loadRejected_def
      saveSettings_def saveResolved_def saveRejected_def performSearch_def searchResolved_def
      searchRejected_def searchFinally_def Let_def split: if_splits)

lemma pinned_step: "pinned s \<Longrightarrow> pinned (step s de)"
  using pinned_handle [OF pinned_advance, of s "snd de" "fst de"]
  by (cases de) (simp add: step_pair pinned_def)

lemma pinned_run: "pinned s \<Longrightarrow> pinned (run s es)"
  by (induction es arbitrary: s) (simp_all add: run_Cons pinned_step)

lemma pinned_init: "pinned init"
  by (simp add: pinned_def init_def)

subsection \<open>Arrow keys\<close>

lemma js_rem_nonneg: "0 \<le> a \<Longrightarrow> 0 < n \<Longrightarrow> js_rem a n = a mod n"
  by (cases "a = 0") (simp_all add: js_rem_def)

lemma arrow_down:
  assumes "results s \<noteq> []" "0 \<le> selectedIndex s"
  shows "selectedIndex (handleKeyDown ''ArrowDown'' s) =
           (selectedIndex s + 1) mod int (length (results s))"
    and "results (handleKeyDown ''ArrowDown'' s) = results s"
  using assms by (simp_all add: handleKeyDown_def Let_def js_rem_nonneg)

lemma arrow_up:
  assumes "results s \<noteq> []" "0 \<le> selectedIndex s"
  shows "selectedIndex (handleKeyDown ''ArrowUp'' s) =
           (selectedIndex s - 1 + int (length (results s))) mod int (length (results s))"
    and "results (handleKeyDown ''ArrowUp'' s) = results s"
proof -
  from assms have "0 \<le> selectedIndex s - 1 + int (length (results s))"
    by (cases "results s") simp_all
  with assms show
    "selectedIndex (handleKeyDown ''ArrowUp'' s) =
       (selectedIndex s - 1 + int (length (results s))) mod int (length (results s))"
    by (simp add: handleKeyDown_def Let_def js_rem_nonneg)
  show "results (handleKeyDown ''ArrowUp'' s) = results s"
    by (simp add: handleKeyDown_def Let_def)
qed

lemma arrow_down_funpow:
  assumes "0 \<le> selectedIndex s" "selectedIndex s < int (length (results s))"
  shows "results ((task (handleKeyDown ''ArrowDown'') ^^ k) s) = results s
       \<and> selectedIndex ((task (handleKeyDown ''ArrowDown'') ^^ k) s)
           = (selectedIndex s + int k) mod int (length (results s))"
proof (induction k)
  case 0
  from assms show ?case by simp
next
  case (Suc k)
  let ?sk = "(task (handleKeyDown ''ArrowDown'') ^^ k) s"
  from assms have ne: "results s \<noteq> []" by auto
  from Suc ne have "results ?sk \<noteq> []" "0 \<le> selectedIndex ?sk" by simp_all
  from arrow_down [OF this] Suc
  have sel: "selectedIndex (task (handleKeyDown ''ArrowDown'') ?sk)
      = ((selectedIndex s + int k) mod int (length (results s)) + 1) mod int (length (results s))"
    and r: "results (task (handleKeyDown ''ArrowDown'') ?sk) = results s"
    by simp_all
  have "((selectedIndex s + int k) mod int (length (results s)) + 1) mod int (length (results s))
      = (selectedIndex s + int k + 1) mod int (length (results s))"
    by (simp only: mod_add_left_eq)
  with sel r show ?case by (simp add: ac_simps)
qed

lemma arrow_up_funpow:
  assumes "0 \<le> selectedIndex s" "selectedIndex s < int (length (results s))"
  shows "results ((task (handleKeyDown ''ArrowUp'') ^^ k) s) = results s
       \<and> selectedIndex ((task (handleKeyDown ''ArrowUp'') ^^ k) s)
           = (selectedIndex s - int k) mod int (length (results s))"
proof (induction k)
  case 0
  from assms show ?case by simp
next
  case (Suc k)
  let ?sk = "(task (handleKeyDown ''ArrowUp'') ^^ k) s"
  let ?n = "int (length (results s))"
  from assms have ne: "results s \<noteq> []" by auto
  from Suc ne have "results ?sk \<noteq> []" "0 \<le> selectedIndex ?sk" by simp_all
  from arrow_up [OF this] Suc
  have sel: "selectedIndex (task (handleKeyDown ''ArrowUp'') ?sk)
      = ((selectedIndex s - int k) mod ?n + (?n - 1)) mod ?n"
    and r: "results (task (handleKeyDown ''ArrowUp'') ?sk) = results s"
    by (simp_all add: algebra_simps)
  have "((selectedIndex s - int k) mod ?n + (?n - 1)) mod ?n
      = (selectedIndex s - int k + (?n - 1)) mod ?n"
    by (simp only: mod_add_left_eq)
  also have "\<dots> = (selectedIndex s - int (Suc k) + ?n) mod ?n"
    by (simp add: algebra_simps)
  also have "\<dots> = (selectedIndex s - int (Suc k)) mod ?n"
    by simp
  finally show ?case using sel r by simp
qed

lemma nextTimerId_advance [simp]: "nextTimerId (advance d s) = nextTimerId s"
  unfolding advance_def
proof (rule fireDue_preserves [where P = "\<lambda>s'. nextTimerId s' = nextTimerId s"])
  fix s' :: app and t
  assume "nextTimerId s' = nextTimerId s"
  then show "nextTimerId (fire t s') = nextTimerId s"
    by (cases "cb t") (simp_all add: fire_SearchCb fire_ScrollCb performSearch_def Let_def)
qed simp

lemma index_ok_init: "index_ok init"
  by (simp add: index_ok_def init_def)

lemma index_ok_keys:
  assumes "index_ok s"
  shows "index_ok (handleKeyDown k s)"
proof (cases "results s = [] \<or> k = ''Escape''")
  case True
  with assms show ?thesis
    by (auto simp: index_ok_def handleKeyDown_def performSearch_def hideWindow_def Let_def)
next
  case False
  with assms have i: "0 \<le> selectedIndex s" "selectedIndex s < int (length (results s))"
    and n: "0 < int (length (results s))" by (auto simp: index_ok_def)
  from i n have "0 \<le> selectedIndex s - 1 + int (length (results s))" by simp
  with i n False show ?thesis
    by (auto simp: index_ok_def handleKeyDown_def handleExecute_def Let_def js_rem_nonneg)
qed

lemma index_ok_handle: "index_ok s \<Longrightarrow> hover_ok s e \<Longrightarrow> index_ok (handle e s)"
proof (cases e)
  case (KeyDown k)
  then show "index_ok s \<Longrightarrow> index_ok (handle e s)" by (simp add: index_ok_keys)
qed (auto simp: index_ok_def handleInput_def handleListScroll_def setTimeout_def clearTimeout_def
      handleMouseMove_def handleExecute_def toggleSettings_def loadSettings_def
      loadResolved_def loadRejected_def saveSettings_def saveResolved_def saveRejected_def
      performSearch_def searchResolved_def searchRejected_def searchFinally_def Let_def)

lemma index_ok_step:
  assumes "index_ok s" "hover_ok (advance (fst de) s) (snd de)"
  shows "index_ok (step s de)"
proof -
  from assms(1) have "index_ok (advance (fst de) s)" by (simp add: index_ok_def)
  from index_ok_handle [OF this assms(2)] show ?thesis
    by (cases de) (simp add: step_pair index_ok_def)
qed

lemma index_ok_run: "index_ok s \<Longrightarrow> hovers_ok s es \<Longrightarrow> index_ok (run s es)"
  by (induction es arbitrary: s) (simp_all add: run_Cons index_ok_step)

section \<open>The claims\<close>

subsection \<open>Search answers\<close>

text \<open>
  C1. Take any run of events from a state whose calls in flight carry distinct tokens not
  above the counter, and let the counter stay below \<open>2 ^ 53\<close>, so that every search sent
  is tagged with the next higher token. Then the result list on screen after the run is
  what the accepted answer with the highest token brought (the list before the run when
  no answer was accepted), and the accepted tokens are strictly increasing in the order of
  arrival, whatever the order in which the answers come. An answer whose token is not the
  current \<^verbatim>\<open>latestSearchId\<close> when it arrives, success or failure, leaves the state as it
  is.
\<close>

theorem latest_response_wins:
  assumes "tokens_ok s" and "latestSearchId (run s es) < 2 ^ 53"
  shows "results (run s es) =
           (case highest (acceptedLog s es) of None \<Rightarrow> results s | Some (tok, r) \<Rightarrow> r)
       \<and> sorted_wrt (<) (map fst (acceptedLog s es))
       \<and> (tok \<noteq> latestSearchId s' \<longrightarrow>
            searchResolved tok res s' = s' \<and> searchRejected tok s' = s')
       \<and> (latestSearchId s' < 2 ^ 53 \<longrightarrow>
            latestSearchId (performSearch q s') = latestSearchId s' + 1
            \<and> searchCalls (performSearch q s') = searchCalls s' @ [(latestSearchId s' + 1, q)])"
  using results_highest_accepted [OF assms]
  by (simp add: searchResolved_def searchRejected_def searchFinally_def performSearch_def
      js_incr_def Let_def)

theorem latest_response_wins_witness:
  "tokens_ok init \<and> latestSearchId (run init race_trace) < 2 ^ 53
   \<and> map fst (searchCalls (run init race_trace)) = [1, 2]
   \<and> acceptedLog init race_trace = [(2, [item_b])]
   \<and> results (run init race_trace) = [item_b]"
proof -
  have ok: "tokens_ok init" by code_simp
  have bound: "latestSearchId (run init race_trace) < 2 ^ 53" by code_simp
  have calls: "map fst (searchCalls (run init race_trace)) = [1, 2]" by code_simp
  have log: "acceptedLog init race_trace = [(2, [item_b])]" by code_simp
  from latest_response_wins [OF ok bound]
  have "results (run init race_trace) =
      (case highest (acceptedLog init race_trace) of
         None \<Rightarrow> results init | Some (tok, r) \<Rightarrow> r)"
    by blast
  with log have "results (run init race_trace) = [item_b]" by simp
  with ok bound calls log show ?thesis by simp
qed

text \<open>
  A run in which an accepted failure leaves the selection where it was: two results are
  on screen, the second one is selected with the Down key, the text changes, the new
  search leaves and fails 20 ms later while its token 2 is still the current one. The
  list becomes empty and \<^verbatim>\<open>selectedIndex\<close> is still 1.
\<close>

theorem selection_after_failure_counterexample:
  "latestSearchId (advance 120 (run loaded [(30, KeyDown ''ArrowDown''), (30, InputChange ''repo'')])) = 2
   \<and> 2 \<in> set (inflight (advance 120 (run loaded [(30, KeyDown ''ArrowDown''), (30, InputChange ''repo'')])))
   \<and> results (advance 120 (run loaded [(30, KeyDown ''ArrowDown''), (30, InputChange ''repo'')]))
       = [item_a, item_b]
   \<and> results (run loaded [(30, KeyDown ''ArrowDown''), (30, InputChange ''repo''), (120, SearchErr 2)])
       = []
   \<and> selectedIndex
       (run loaded [(30, KeyDown ''ArrowDown''), (30, InputChange ''repo''), (120, SearchErr 2)]) \<noteq> 0"
  by code_simp

text \<open>
  C2, amended. An answer that arrives while its token is the current one replaces the
  result list. When it is a success, \<^verbatim>\<open>selectedIndex\<close> becomes 0 whatever it was; when it
  is a failure, the list becomes empty and \<^verbatim>\<open>selectedIndex\<close> keeps its value.
\<close>

theorem selection_reset_on_success:
  "results (searchResolved (latestSearchId s) res s) = res
   \<and> selectedIndex (searchResolved (latestSearchId s) res s) = 0
   \<and> results (searchRejected (latestSearchId s) s) = []
   \<and> selectedIndex (searchRejected (latestSearchId s) s) = selectedIndex s"
  by (simp add: searchRejected_def searchResolved_def searchFinally_def)

text \<open>
  C9. When the search call fails and its token is still the current one, the failure is
  logged, the result list becomes empty and the loading flag is cleared, and nothing else
  changes; when the token is stale, the state stays as it is.
\<close>

theorem search_failure_handling:
  "(tok = latestSearchId s \<longrightarrow>
      searchRejected tok s =
        s\<lparr> errorLog := errorLog s @ [SearchFailed], results := [], isLoading := False \<rparr>)
   \<and> (tok \<noteq> latestSearchId s \<longrightarrow> searchRejected tok s = s)"
  by (simp add: searchRejected_def searchFinally_def)

theorem search_failure_handling_witness:
  "latestSearchId (performSearch ''a'' loaded) = 2
   \<and> results (performSearch ''a'' loaded) = [item_a, item_b]
   \<and> results (searchRejected 2 (performSearch ''a'' loaded)) = []
   \<and> \<not> isLoading (searchRejected 2 (performSearch ''a'' loaded))
   \<and> errorLog (searchRejected 2 (performSearch ''a'' loaded)) = [SearchFailed]
   \<and> searchRejected 1 (performSearch ''a'' loaded) = performSearch ''a'' loaded"
proof -
  have cur: "latestSearchId (performSearch ''a'' loaded) = 2" by code_simp
  have res: "results (performSearch ''a'' loaded) = [item_a, item_b]" by code_simp
  have log: "errorLog (performSearch ''a'' loaded) = []" by code_simp
  from search_failure_handling [of 2 "performSearch ''a'' loaded"] cur
  have "searchRejected 2 (performSearch ''a'' loaded) =
      (performSearch ''a'' loaded)\<lparr> errorLog := errorLog (performSearch ''a'' loaded) @ [SearchFailed],
         results := [], isLoading := False \<rparr>"
    by simp
  then have a: "results (searchRejected 2 (performSearch ''a'' loaded)) = []"
    "\<not> isLoading (searchRejected 2 (performSearch ''a'' loaded))"
    "errorLog (searchRejected 2 (performSearch ''a'' loaded)) = [SearchFailed]"
    using log by simp_all
  from search_failure_handling [of 1 "performSearch ''a'' loaded"] cur
  have "searchRejected 1 (performSearch ''a'' loaded) = performSearch ''a'' loaded" by simp
  with cur res a show ?thesis by simp
qed

subsection \<open>Debounced input\<close>

text \<open>
  C3. Let an input change arrive in a state where handles and timers agree, followed by
  any number of further input changes, each less than 100 ms after the one before it. No
  search is sent until 100 ms have passed since the last of them; from then on exactly one
  search has been sent, under the next token and with the text of the last input change,
  which is the query when the timer fires. After an input change one search timer is
  pending, the new one, due 100 ms later: a timer that was pending is cancelled.
\<close>

theorem debounce_coalescing:
  assumes "timers_ok s" and "\<forall>g \<in> fst ` set burst. g < 100"
  shows "(d < 100 \<longrightarrow>
            searchCalls (advance d (run (task (handle (InputChange q0)) s) (inputs burst)))
              = searchCalls s)
       \<and> (100 \<le> d \<longrightarrow>
            searchCalls (advance d (run (task (handle (InputChange q0)) s) (inputs burst)))
              = searchCalls s @ [(js_incr (latestSearchId s), last (q0 # map snd burst))])
       \<and> filter (\<lambda>t. cb t = SearchCb) (timers (handle (InputChange q0) s))
           = [\<lparr> tid = nextTimerId s, deadline = now s + 100, cb = SearchCb \<rparr>]"
proof (intro conjI impI)
  assume "d < 100"
  with assms show
    "searchCalls (advance d (run (task (handle (InputChange q0)) s) (inputs burst)))
       = searchCalls s"
    by (rule burst_fires_once(1))
next
  assume "100 \<le> d"
  with assms show
    "searchCalls (advance d (run (task (handle (InputChange q0)) s) (inputs burst)))
       = searchCalls s @ [(js_incr (latestSearchId s), last (q0 # map snd burst))]"
    by (rule burst_fires_once(2))
next
  from assms(1) have "timers_ok (s\<lparr> query := q0 \<rparr>)" by simp
  from search_timers_handleInput [OF this] show
    "filter (\<lambda>t. cb t = SearchCb) (timers (handle (InputChange q0) s))
       = [\<lparr> tid = nextTimerId s, deadline = now s + 100, cb = SearchCb \<rparr>]"
    by simp
qed

theorem debounce_coalescing_witness:
  "timers_ok init
   \<and> searchCalls (advance 99
        (run (task (handle (InputChange ''r'')) init) (inputs [(40, ''re''), (99, ''rep'')]))) = []
   \<and> searchCalls (advance 100
        (run (task (handle (InputChange ''r'')) init) (inputs [(40, ''re''), (99, ''rep'')])))
       = [(1, ''rep'')]
   \<and> filter (\<lambda>t. cb t = SearchCb) (timers (handle (InputChange ''r'') init))
       = [\<lparr> tid = 1, deadline = 100, cb = SearchCb \<rparr>]"
proof -
  have ok: "timers_ok init" by (rule timers_ok_init)
  have gaps: "\<forall>g \<in> fst ` set [(40 :: nat, ''re''), (99, ''rep'')]. g < 100" by simp
  have i: "searchCalls init = []" "latestSearchId init = 0" "nextTimerId init = 1" "now init = 0"
    by (simp_all add: init_def)
  from debounce_coalescing [OF ok gaps, of 99 "''r''"] i
  have a: "searchCalls (advance 99
      (run (task (handle (InputChange ''r'')) init) (inputs [(40, ''re''), (99, ''rep'')]))) = []"
    by simp
  from debounce_coalescing [OF ok gaps, of 100 "''r''"] i
  have "searchCalls (advance 100
      (run (task (handle (InputChange ''r'')) init) (inputs [(40, ''re''), (99, ''rep'')])))
       = [(1, ''rep'')]"
    "filter (\<lambda>t. cb t = SearchCb) (timers (handle (InputChange ''r'') init))
       = [\<lparr> tid = 1, deadline = 100, cb = SearchCb \<rparr>]"
    by (simp_all add: js_incr_def)
  with ok a show ?thesis by simp
qed

subsection \<open>Keyboard\<close>

text \<open>
  C4. While the result list has \<open>n \<ge> 1\<close> entries and \<^verbatim>\<open>selectedIndex\<close> is an index
  \<open>i\<close> of it, the Down key sets \<^verbatim>\<open>selectedIndex\<close> to \<open>(i + 1) mod n\<close> and the Up key to
  \<open>(i - 1 + n) mod n\<close>; \<open>n\<close> Down presses in a row lead back to \<open>i\<close>, and so do \<open>n\<close> Up
  presses. While the list is empty both keys leave the state as it is. (That
  \<^verbatim>\<open>selectedIndex\<close> is an index of a non-empty list holds in every state reached from the
  initial one by events whose pointer moves come from rendered rows, see \<open>index_ok_run\<close>.)
\<close>

theorem cyclic_navigation:
  "(0 \<le> selectedIndex s \<and> selectedIndex s < int (length (results s)) \<longrightarrow>
      selectedIndex (handleKeyDown ''ArrowDown'' s)
        = (selectedIndex s + 1) mod int (length (results s))
      \<and> selectedIndex (handleKeyDown ''ArrowUp'' s)
        = (selectedIndex s - 1 + int (length (results s))) mod int (length (results s))
      \<and> selectedIndex ((task (handleKeyDown ''ArrowDown'') ^^ length (results s)) s)
        = selectedIndex s
      \<and> selectedIndex ((task (handleKeyDown ''ArrowUp'') ^^ length (results s)) s)
        = selectedIndex s)
   \<and> (results s = [] \<longrightarrow>
        handleKeyDown ''ArrowDown'' s = s \<and> handleKeyDown ''ArrowUp'' s = s)"
proof (intro conjI impI)
  assume "results s = []"
  then show "handleKeyDown ''ArrowDown'' s = s" "handleKeyDown ''ArrowUp'' s = s"
    by (simp_all add: handleKeyDown_def)
next
  assume a: "0 \<le> selectedIndex s \<and> selectedIndex s < int (length (results s))"
  then have ne: "results s \<noteq> []" and i: "0 \<le> selectedIndex s"
    "selectedIndex s < int (length (results s))" by auto
  show "selectedIndex (handleKeyDown ''ArrowDown'' s)
      = (selectedIndex s + 1) mod int (length (results s))"
    using ne i(1) by (rule arrow_down)
  show "selectedIndex (handleKeyDown ''ArrowUp'' s)
      = (selectedIndex s - 1 + int (length (results s))) mod int (length (results s))"
    using ne i(1) by (rule arrow_up)
  show "selectedIndex ((task (handleKeyDown ''ArrowDown'') ^^ length (results s)) s)
      = selectedIndex s"
    using arrow_down_funpow [OF i, of "length (results s)"] i by simp
  show "selectedIndex ((task (handleKeyDown ''ArrowUp'') ^^ length (results s)) s)
      = selectedIndex s"
    using arrow_up_funpow [OF i, of "length (results s)"] i by simp
qed

theorem cyclic_navigation_witness:
  "length (results loaded) = 2 \<and> selectedIndex loaded = 0
   \<and> selectedIndex (handleKeyDown ''ArrowDown'' loaded) = 1
   \<and> selectedIndex (handleKeyDown ''ArrowUp'' loaded) = 1
   \<and> selectedIndex ((task (handleKeyDown ''ArrowDown'') ^^ 2) loaded) = 0
   \<and> selectedIndex ((task (handleKeyDown ''ArrowUp'') ^^ 2) loaded) = 0
   \<and> results init = [] \<and> handleKeyDown ''ArrowDown'' init = init
   \<and> handleKeyDown ''ArrowUp'' init = init"
proof -
  have n: "length (results loaded) = 2" and i: "selectedIndex loaded = 0" by code_simp+
  have e: "results init = []" by code_simp
  from cyclic_navigation [of loaded] n i
  have "selectedIndex (handleKeyDown ''ArrowDown'' loaded) = 1"
    "selectedIndex (handleKeyDown ''ArrowUp'' loaded) = 1"
    "selectedIndex ((task (handleKeyDown ''ArrowDown'') ^^ 2) loaded) = 0"
    "selectedIndex ((task (handleKeyDown ''ArrowUp'') ^^ 2) loaded) = 0"
    by simp_all
  moreover from cyclic_navigation [of init] e
  have "handleKeyDown ''ArrowDown'' init = init" "handleKeyDown ''ArrowUp'' init = init"
    by simp_all
  ultimately show ?thesis using n i e by simp
qed

text \<open>
  C6. The Escape key, while the query is not empty, empties the query and sends a search
  for the empty string under the next token; while the query is empty, it asks the window
  to hide and changes nothing else, so the query and the result list stay as they are.
\<close>

theorem escape_two_stage:
  "(query s \<noteq> [] \<longrightarrow>
      query (handleKeyDown ''Escape'' s) = []
      \<and> searchCalls (handleKeyDown ''Escape'' s)
          = searchCalls s @ [(js_incr (latestSearchId s), [])]
      \<and> hideCalls (handleKeyDown ''Escape'' s) = hideCalls s)
   \<and> (query s = [] \<longrightarrow>
        handleKeyDown ''Escape'' s = s\<lparr> hideCalls := Suc (hideCalls s) \<rparr>
        \<and> query (handleKeyDown ''Escape'' s) = query s
        \<and> results (handleKeyDown ''Escape'' s) = results s
        \<and> searchCalls (handleKeyDown ''Escape'' s) = searchCalls s)"
  by (simp add: handleKeyDown_def performSearch_def hideWindow_def Let_def)

theorem escape_two_stage_witness:
  "query loaded = ''rep''
   \<and> query (handleKeyDown ''Escape'' loaded) = []
   \<and> searchCalls (handleKeyDown ''Escape'' loaded) = [(1, ''rep''), (2, [])]
   \<and> hideCalls (handleKeyDown ''Escape'' loaded) = 0
   \<and> query (handleKeyDown ''Escape'' loaded) = []
   \<and> hideCalls (handleKeyDown ''Escape'' (handleKeyDown ''Escape'' loaded)) = 1
   \<and> results (handleKeyDown ''Escape'' (handleKeyDown ''Escape'' loaded)) = [item_a, item_b]
   \<and> searchCalls (handleKeyDown ''Escape'' (handleKeyDown ''Escape'' loaded))
       = [(1, ''rep''), (2, [])]"
proof -
  have q: "query loaded = ''rep''" and c: "searchCalls loaded = [(1, ''rep'')]"
    and l: "latestSearchId loaded = 1" and h: "hideCalls loaded = 0"
    and r: "results loaded = [item_a, item_b]"
    by code_simp+
  from escape_two_stage [of loaded] q c l h
  have one: "query (handleKeyDown ''Escape'' loaded) = []"
    "searchCalls (handleKeyDown ''Escape'' loaded) = [(1, ''rep''), (2, [])]"
    "hideCalls (handleKeyDown ''Escape'' loaded) = 0"
    by (simp_all add: js_incr_def)
  have r1: "results (handleKeyDown ''Escape'' loaded) = [item_a, item_b]"
    using r by (simp add: handleKeyDown_def performSearch_def hideWindow_def Let_def)
  from escape_two_stage [of "handleKeyDown ''Escape'' loaded"] one r1
  have "hideCalls (handleKeyDown ''Escape'' (handleKeyDown ''Escape'' loaded)) = 1"
    "results (handleKeyDown ''Escape'' (handleKeyDown ''Escape'' loaded)) = [item_a, item_b]"
    "searchCalls (handleKeyDown ''Escape'' (handleKeyDown ''Escape'' loaded))
       = [(1, ''rep''), (2, [])]"
    by simp_all
  with q one show ?thesis by simp
qed

text \<open>
  C10. A key other than Escape, pressed while the result list is not empty, sets both
  \<^verbatim>\<open>isKeyboardScroll\<close> and \<^verbatim>\<open>isKeyboardSelection\<close>, whatever key it is. So after a key that
  is not an arrow either (a character, Enter), with the main view shown and no scroll
  going on, a pointer move over another row makes the watcher call \<^verbatim>\<open>scrollIntoView\<close> for
  that row.
\<close>

theorem any_key_sets_gates:
  "(key \<noteq> ''Escape'' \<and> results s \<noteq> [] \<longrightarrow>
      isKeyboardScroll (handleKeyDown key s) \<and> isKeyboardSelection (handleKeyDown key s))
   \<and> (key \<noteq> ''Escape'' \<and> key \<noteq> ''ArrowDown'' \<and> key \<noteq> ''ArrowUp'' \<and> results s \<noteq> []
        \<and> \<not> showSettings s \<and> \<not> isMouseScrolling s \<and> (mx \<noteq> 0 \<or> my \<noteq> 0)
        \<and> 0 \<le> i \<and> i < int (length (results s)) \<and> i \<noteq> selectedIndex s \<longrightarrow>
        scrollCalls (task (handleMouseMove i mx my) (task (handleKeyDown key) s))
          = scrollCalls s @ [i])"
  by (auto simp add: handleKeyDown_def Let_def handleExecute_def task_def handleMouseMove_def
      watchSelectedIndex_def childrenCount_def)

theorem any_key_sets_gates_witness:
  "results loaded = [item_a, item_b] \<and> selectedIndex loaded = 0
   \<and> \<not> showSettings loaded \<and> \<not> isMouseScrolling loaded \<and> scrollCalls loaded = []
   \<and> isKeyboardScroll (handleKeyDown ''o'' loaded)
   \<and> isKeyboardSelection (handleKeyDown ''o'' loaded)
   \<and> isKeyboardScroll (handleKeyDown ''Enter'' loaded)
   \<and> scrollCalls (task (handleMouseMove 1 0 3) (task (handleKeyDown ''o'') loaded)) = [1]
   \<and> scrollCalls (task (handleMouseMove 1 2 0) (task (handleKeyDown ''Enter'') loaded)) = [1]"
proof -
  have r: "results loaded = [item_a, item_b]" and i: "selectedIndex loaded = 0"
    and v: "\<not> showSettings loaded" and m: "\<not> isMouseScrolling loaded"
    and c: "scrollCalls loaded = []"
    by code_simp+
  from any_key_sets_gates [of "''o''" loaded 0 3 1] r i v m c
  have o: "isKeyboardScroll (handleKeyDown ''o'' loaded)"
    "isKeyboardSelection (handleKeyDown ''o'' loaded)"
    "scrollCalls (task (handleMouseMove 1 0 3) (task (handleKeyDown ''o'') loaded)) = [1]"
    by simp_all
  from any_key_sets_gates [of "''Enter''" loaded 2 0 1] r i v m c
  have "isKeyboardScroll (handleKeyDown ''Enter'' loaded)"
    "scrollCalls (task (handleMouseMove 1 2 0) (task (handleKeyDown ''Enter'') loaded)) = [1]"
    by simp_all
  with r i v m c o show ?thesis by simp
qed

subsection \<open>Pointer and scrolling\<close>

text \<open>
  C5. Let a scroll event on the result list arrive in a state where handles and timers
  agree. A pointer move over a row that arrives less than 150 ms after it, whatever events
  come in between, leaves \<^verbatim>\<open>selectedIndex\<close> as it is. A pointer move with a non-zero
  movement that arrives more than 150 ms after it, with no further scroll event in between,
  sets \<^verbatim>\<open>selectedIndex\<close> to its row. After a scroll event one scroll timer is pending, the
  new one, due 150 ms later: each scroll event starts the window anew. (A pointer move at
  the very instant the timer is due is not spoken of: which of the two tasks runs first is
  up to the host.)
\<close>

theorem mouse_suppression_window:
  assumes "timers_ok s"
  shows "(elapsed es + d < 150 \<longrightarrow>
            selectedIndex (step (run (step s (d0, ListScroll)) es) (d, MouseMove i mx my))
              = selectedIndex (run (step s (d0, ListScroll)) es))
       \<and> (ListScroll \<notin> snd ` set es \<and> 150 < elapsed es + d \<and> (mx \<noteq> 0 \<or> my \<noteq> 0) \<longrightarrow>
            selectedIndex (step (run (step s (d0, ListScroll)) es) (d, MouseMove i mx my)) = i)
       \<and> filter (\<lambda>t. cb t = ScrollCb) (timers (step s (d0, ListScroll)))
           = [\<lparr> tid = nextTimerId s, deadline = now s + d0 + 150, cb = ScrollCb \<rparr>]"
proof (intro conjI impI)
  assume "elapsed es + d < 150"
  with assms show
    "selectedIndex (step (run (step s (d0, ListScroll)) es) (d, MouseMove i mx my))
       = selectedIndex (run (step s (d0, ListScroll)) es)"
    by (rule hover_suppressed)
next
  assume "ListScroll \<notin> snd ` set es \<and> 150 < elapsed es + d \<and> (mx \<noteq> 0 \<or> my \<noteq> 0)"
  then have "ListScroll \<notin> snd ` set es" "150 \<le> elapsed es + d" "mx \<noteq> 0 \<or> my \<noteq> 0" by simp_all
  with assms show
    "selectedIndex (step (run (step s (d0, ListScroll)) es) (d, MouseMove i mx my)) = i"
    by (rule hover_accepted)
next
  from scroll_timers_handleListScroll [OF timers_ok_advance [OF assms], of d0] show
    "filter (\<lambda>t. cb t = ScrollCb) (timers (step s (d0, ListScroll)))
       = [\<lparr> tid = nextTimerId s, deadline = now s + d0 + 150, cb = ScrollCb \<rparr>]"
    by (simp add: step_pair)
qed

theorem mouse_suppression_window_witness:
  "timers_ok loaded \<and> timers_ok (step loaded (50, ListScroll))
   \<and> selectedIndex (run (step loaded (50, ListScroll)) [(60, KeyDown ''Shift'')]) = 0
   \<and> selectedIndex (step (run (step loaded (50, ListScroll)) [(60, KeyDown ''Shift'')])
        (89, MouseMove 1 0 3)) = 0
   \<and> selectedIndex (step (run (step loaded (50, ListScroll)) [(60, KeyDown ''Shift'')])
        (91, MouseMove 1 0 3)) = 1
   \<and> selectedIndex (step (run (step (step loaded (50, ListScroll)) (100, ListScroll)) [])
        (100, MouseMove 1 0 3)) = 0"
proof -
  have ok: "timers_ok loaded" unfolding loaded_def by (rule timers_ok_run [OF timers_ok_init])
  then have ok2: "timers_ok (step loaded (50, ListScroll))" by (rule timers_ok_step)
  have e: "elapsed [(60, KeyDown ''Shift'')] = 60" "elapsed [] = 0" by simp_all
  have n: "ListScroll \<notin> snd ` set [(60 :: nat, KeyDown ''Shift'')]" by simp
  have i0: "selectedIndex (run (step loaded (50, ListScroll)) [(60, KeyDown ''Shift'')]) = 0"
    by code_simp
  have i1: "selectedIndex (run (step (step loaded (50, ListScroll)) (100, ListScroll)) []) = 0"
    by code_simp
  from mouse_suppression_window [OF ok, of "[(60, KeyDown ''Shift'')]" 89 50 1 0 3] e i0
  have a: "selectedIndex (step (run (step loaded (50, ListScroll)) [(60, KeyDown ''Shift'')])
        (89, MouseMove 1 0 3)) = 0"
    by simp
  from mouse_suppression_window [OF ok, of "[(60, KeyDown ''Shift'')]" 91 50 1 0 3] e n
  have b: "selectedIndex (step (run (step loaded (50, ListScroll)) [(60, KeyDown ''Shift'')])
        (91, MouseMove 1 0 3)) = 1"
    by simp
  from mouse_suppression_window [OF ok2, of "[]" 100 100 1 0 3] e i1
  have c: "selectedIndex (step (run (step (step loaded (50, ListScroll)) (100, ListScroll)) [])
        (100, MouseMove 1 0 3)) = 0"
    by simp
  from ok ok2 i0 a b c show ?thesis by simp
qed

subsection \<open>Settings\<close>

text \<open>
  C7. Whatever \<^verbatim>\<open>get_settings\<close> answers, the settings hold the fixed path as background
  image once the answer is taken in; and the record that \<^verbatim>\<open>saveSettings\<close> hands to
  \<^verbatim>\<open>save_settings\<close> is the current settings with the fixed path as background image.
  From the initial state on, the settings hold the fixed path after every event, and so does
  every record ever handed to \<^verbatim>\<open>save_settings\<close>.
\<close>

theorem background_image_pinned:
  "theme_bg_image (settings (loadResolved saved s)) = FIXED_BG_PATH
   \<and> saveCalls (saveSettings s) = saveCalls s @ [(settings s)\<lparr> theme_bg_image := FIXED_BG_PATH \<rparr>]
   \<and> theme_bg_image (settings (run init es)) = FIXED_BG_PATH
   \<and> (\<forall>r \<in> set (saveCalls (run init es)). theme_bg_image r = FIXED_BG_PATH)"
  using pinned_run [OF pinned_init, of es]
  by (simp add: pinned_def loadResolved_def saveSettings_def Let_def)

theorem background_image_pinned_witness:
  "saved_theme_bg_image stored = Some ''C:/wall.jpg''
   \<and> theme_bg_image (settings (loadResolved stored init)) = ''/bg.png''
   \<and> theme_bg_opacity (settings (run init save_trace)) = 0.5
   \<and> theme_bg_image (settings (run init save_trace)) = ''/bg.png''
   \<and> map theme_bg_image (saveCalls (run init save_trace)) = [''/bg.png'']"
proof -
  have st: "saved_theme_bg_image stored = Some ''C:/wall.jpg''" by code_simp
  have op: "theme_bg_opacity (settings (run init save_trace)) = 0.5" by code_simp
  have n: "length (saveCalls (run init save_trace)) = 1" by code_simp
  from background_image_pinned [of stored init save_trace]
  have a: "theme_bg_image (settings (loadResolved stored init)) = ''/bg.png''"
    "theme_bg_image (settings (run init save_trace)) = ''/bg.png''"
    and b: "\<forall>r \<in> set (saveCalls (run init save_trace)). theme_bg_image r = ''/bg.png''"
    by (simp_all add: FIXED_BG_PATH_def)
  from n obtain r where "saveCalls (run init save_trace) = [r]"
    by (cases "saveCalls (run init save_trace)") auto
  with b have "map theme_bg_image (saveCalls (run init save_trace)) = [''/bg.png'']" by simp
  with st op a show ?thesis by simp
qed

text \<open>
  C8. Cancelling the settings panel is to discard the edits: after open, edits and cancel
  the settings are to be what they were before the edits. The code does not do so. With the
  panel open and the stored opacity 0.3 loaded, the opacity is set to 0.5 and the panel is
  cancelled: the panel closes and the settings still hold 0.5. When the panel is then opened
  again and its load fails, a save hands the cancelled 0.5 to \<^verbatim>\<open>save_settings\<close>.
\<close>

theorem cancel_leaves_edit_in_force:
  "showSettings (run init open_trace)
   \<and> theme_bg_opacity (settings (run init open_trace)) = 0.3
   \<and> \<not> showSettings (run (run init open_trace) edit_cancel_trace)
   \<and> theme_bg_opacity (settings (run (run init open_trace) edit_cancel_trace)) = 0.5
   \<and> settings (run (run init open_trace) edit_cancel_trace) \<noteq> settings (run init open_trace)
   \<and> map theme_bg_opacity
        (saveCalls (run (run (run init open_trace) edit_cancel_trace) reopen_save_trace)) = [0.5]"
  by code_simp

end
